theory Spec2Isabelle
  imports Main "HOL-Library.AList" "HOL-Library.Multiset"
begin

section \<open>The file system the directory engine runs on\<close>

text \<open>
  \<^verbatim>\<open>libs/dir.js\<close> and the recursive \<^verbatim>\<open>mkdir\<close> helper reach the disk only through
  single-entry primitives (\<^verbatim>\<open>fs.access\<close>, \<^verbatim>\<open>fs.lstat\<close>, \<^verbatim>\<open>fs.mkdir\<close>, and the
  \<^verbatim>\<open>FSTools\<close> wrappers of list-directory, stat, read-file, write-file, make-directory,
  remove-file and remove-directory).  The disk is a tree of plain files and directories
  (no symbolic links, devices or sockets, so \<^verbatim>\<open>stat\<close> and \<^verbatim>\<open>lstat\<close> agree); a
  directory keeps its children as an association list in listing order.  An absolute,
  normalised path is the list of its components; \<open>[]\<close> is the root \<^verbatim>\<open>/\<close>.
\<close>

type_synonym path = "string list"

datatype node =
    File string nat
  | Dir nat "(string \<times> node) list"

datatype error = ENOENT | ENOTDIR | EEXIST | EISDIR | ENOTEMPTY | TypeError

fun lookup :: "node \<Rightarrow> path \<Rightarrow> node option" where
  "lookup n [] = Some n"
| "lookup (File c m) (x # xs) = None"
| "lookup (Dir m ks) (x # xs) =
     (case map_of ks x of None \<Rightarrow> None | Some k \<Rightarrow> lookup k xs)"

text \<open>The string a JavaScript value holds for a path: \<^verbatim>\<open>/\<close> for the root, otherwise
  every component preceded by \<^verbatim>\<open>/\<close>.\<close>

definition path_str :: "path \<Rightarrow> string" where
  "path_str p = (if p = [] then ''/'' else concat (map (\<lambda>c. ''/'' @ c) p))"

text \<open>\<^verbatim>\<open>path.basename\<close> and \<^verbatim>\<open>path.dirname\<close>; at the root they give \<^verbatim>\<open>''\<close> and \<^verbatim>\<open>/\<close>.\<close>

definition basename :: "path \<Rightarrow> string" where
  "basename p = (if p = [] then [] else last p)"

definition dirname :: "path \<Rightarrow> path" where
  "dirname p = butlast p"

subsection \<open>Primitives\<close>

text \<open>Modelled from the spec: the single-entry filesystem primitives of section 6
  (check-access, stat, list-directory, read-file, write-file, make-directory,
  remove-file, remove-directory).  Each either gives its result or fails with an
  OS-level error.\<close>

definition fs_access :: "node \<Rightarrow> path \<Rightarrow> error option" where
  "fs_access fs p = (case lookup fs p of None \<Rightarrow> Some ENOENT | Some n \<Rightarrow> None)"

datatype stats = Stats bool nat

fun isDirectory :: "stats \<Rightarrow> bool" where
  "isDirectory (Stats d m) = d"

fun st_mode :: "stats \<Rightarrow> nat" where
  "st_mode (Stats d m) = m"

definition stat :: "node \<Rightarrow> path \<Rightarrow> error + stats" where
  "stat fs p =
     (case lookup fs p of
        None \<Rightarrow> Inl ENOENT
      | Some (File c m) \<Rightarrow> Inr (Stats False m)
      | Some (Dir m ks) \<Rightarrow> Inr (Stats True m))"

definition readDir :: "node \<Rightarrow> path \<Rightarrow> error + string list" where
  "readDir fs p =
     (case lookup fs p of
        None \<Rightarrow> Inl ENOENT
      | Some (File c m) \<Rightarrow> Inl ENOTDIR
      | Some (Dir m ks) \<Rightarrow> Inr (map fst ks))"

definition readFile :: "node \<Rightarrow> path \<Rightarrow> error + string" where
  "readFile fs p =
     (case lookup fs p of
        None \<Rightarrow> Inl ENOENT
      | Some (File c m) \<Rightarrow> Inr c
      | Some (Dir m ks) \<Rightarrow> Inl EISDIR)"

text \<open>\<^verbatim>\<open>fs.mkdir\<close>: the parent must be a directory and the name must be free.\<close>

fun fs_mkdir :: "node \<Rightarrow> path \<Rightarrow> nat \<Rightarrow> error + node" where
  "fs_mkdir n [] md = Inl EEXIST"
| "fs_mkdir (File c m) (x # xs) md = Inl ENOTDIR"
| "fs_mkdir (Dir m ks) [x] md =
     (case map_of ks x of
        Some k \<Rightarrow> Inl EEXIST
      | None \<Rightarrow> Inr (Dir m (ks @ [(x, Dir md [])])))"
| "fs_mkdir (Dir m ks) (x # y # ys) md =
     (case map_of ks x of
        None \<Rightarrow> Inl ENOENT
      | Some k \<Rightarrow>
          (case fs_mkdir k (y # ys) md of
             Inl e \<Rightarrow> Inl e
           | Inr k' \<Rightarrow> Inr (Dir m (AList.update x k' ks))))"

text \<open>Write-file: creates the file with the given mode or replaces the content of an
  existing file (whose mode stays); the parent must be a directory.\<close>

fun writeFile :: "node \<Rightarrow> path \<Rightarrow> string \<Rightarrow> nat \<Rightarrow> error + node" where
  "writeFile n [] d md = Inl EISDIR"
| "writeFile (File c m) (x # xs) d md = Inl ENOTDIR"
| "writeFile (Dir m ks) [x] d md =
     (case map_of ks x of
        Some (Dir m' ks') \<Rightarrow> Inl EISDIR
      | Some (File c' m') \<Rightarrow> Inr (Dir m (AList.update x (File d m') ks))
      | None \<Rightarrow> Inr (Dir m (ks @ [(x, File d md)])))"
| "writeFile (Dir m ks) (x # y # ys) d md =
     (case map_of ks x of
        None \<Rightarrow> Inl ENOENT
      | Some k \<Rightarrow>
          (case writeFile k (y # ys) d md of
             Inl e \<Rightarrow> Inl e
           | Inr k' \<Rightarrow> Inr (Dir m (AList.update x k' ks))))"

text \<open>Remove-file (\<open>want_dir = False\<close>) and remove-directory (\<open>want_dir = True\<close>): the
  entry must be of the kind asked for, and a directory must be empty.\<close>

fun remove :: "bool \<Rightarrow> node \<Rightarrow> path \<Rightarrow> error + node" where
  "remove want_dir n [] = Inl (if want_dir then ENOTEMPTY else EISDIR)"
| "remove want_dir (File c m) (x # xs) = Inl ENOTDIR"
| "remove want_dir (Dir m ks) [x] =
     (case map_of ks x of
        None \<Rightarrow> Inl ENOENT
      | Some (File c' m') \<Rightarrow>
          (if want_dir then Inl ENOTDIR else Inr (Dir m (AList.delete x ks)))
      | Some (Dir m' ks') \<Rightarrow>
          (if \<not> want_dir then Inl EISDIR
           else if ks' \<noteq> [] then Inl ENOTEMPTY
           else Inr (Dir m (AList.delete x ks))))"
| "remove want_dir (Dir m ks) (x # y # ys) =
     (case map_of ks x of
        None \<Rightarrow> Inl ENOENT
      | Some k \<Rightarrow>
          (case remove want_dir k (y # ys) of
             Inl e \<Rightarrow> Inl e
           | Inr k' \<Rightarrow> Inr (Dir m (AList.update x k' ks))))"

definition removeFile :: "node \<Rightarrow> path \<Rightarrow> error + node" where
  "removeFile fs p = remove False fs p"

definition removeDir :: "node \<Rightarrow> path \<Rightarrow> error + node" where
  "removeDir fs p = remove True fs p"

section \<open>\<^verbatim>\<open>exists\<close>\<close>

text \<open>A promise settles as resolved with a value or rejected with an error.\<close>

datatype 'a promise = Resolved 'a | Rejected error

text \<open>The callback \<^verbatim>\<open>exists\<close> hands to \<^verbatim>\<open>fs.access\<close>, as a function of the error it is
  called with, and \<^verbatim>\<open>exists\<close> itself on the directory's path.\<close>

definition exists_callback :: "error option \<Rightarrow> bool promise" where
  "exists_callback err = (case err of Some e \<Rightarrow> Resolved False | None \<Rightarrow> Resolved True)"

definition exists_dir :: "node \<Rightarrow> path \<Rightarrow> bool promise" where
  "exists_dir fs this_path = exists_callback (fs_access fs this_path)"

section \<open>The recursive \<^verbatim>\<open>mkdir\<close> helper\<close>

text \<open>
  \<^verbatim>\<open>mkdir(dir, done)\<close> of the helper module.  The result is the argument \<^verbatim>\<open>done\<close> is
  called with (\<open>None\<close> for a call without an error) and the disk it leaves.
  \<^verbatim>\<open>path.join(dir, '../')\<close> is the parent, and it is the string \<^verbatim>\<open>/\<close> exactly when the
  parent has no component; the created directory gets the default mode \<open>0o777 = 511\<close>.
\<close>

function mkdir_helper :: "node \<Rightarrow> path \<Rightarrow> error option \<times> node" where
  "mkdir_helper fs dir =
     (case fs_access fs dir of
        None \<Rightarrow> (None, fs)
      | Some err \<Rightarrow>
          (let curDir = butlast dir in
           if curDir = [] then (None, fs)
           else
             (case mkdir_helper fs curDir of
                (Some err', fs') \<Rightarrow> (Some err', fs')
              | (None, fs') \<Rightarrow>
                  (case fs_mkdir fs' dir 511 of
                     Inl e \<Rightarrow> (Some e, fs')
                   | Inr fs'' \<Rightarrow> (None, fs'')))))"
  by pat_completeness auto
termination
proof (relation "measure (\<lambda>(fs, dir). length dir)")
  fix fs :: node and dir :: path and err :: error and curDir :: path
  assume "curDir = butlast dir" and "curDir \<noteq> []"
  then have "dir \<noteq> []" by auto
  then show "((fs, curDir), (fs, dir)) \<in> measure (\<lambda>(fs, dir). length dir)"
    using \<open>curDir = butlast dir\<close> by simp
qed simp

section \<open>Entries and the options of \<^verbatim>\<open>read\<close>\<close>

text \<open>
  A matcher is the \<^verbatim>\<open>test\<close> method of the object \<^verbatim>\<open>FSTools.createFileMatch\<close> returns.
  \<^verbatim>\<open>createFileMatch\<close> itself is a parameter of the model: it maps a pattern
  specification (\<open>None\<close> for a falsy one) to a matcher, or to \<open>None\<close> for \<^verbatim>\<open>null\<close>; a
  matcher's test is a pure predicate on strings.
  An entry carries the fields the operations below read; \<open>relative\<close>, \<open>fileExists\<close> and
  \<open>fileOverwritten\<close> are absent (\<open>None\<close>) until an operation sets them.
\<close>

type_synonym matcher = "string \<Rightarrow> bool"

record entry =
  path :: path
  name :: string
  dir :: path
  isFile :: bool
  isDir :: bool
  mode :: nat
  relative :: "string option"
  fileExists :: "bool option"
  fileOverwritten :: "bool option"

record 'p read_opts =
  encoding :: string
  recursive :: bool
  relativePath :: string
  skipFiles :: bool
  skipDirs :: bool
  addParent :: bool
  filter_opt :: "'p option"
  ignore :: "'p option"

definition default_opts :: "'p read_opts" where
  "default_opts =
     \<lparr>encoding = ''utf8'', recursive = False, relativePath = [], skipFiles = False,
      skipDirs = False, addParent = False, filter_opt = None, ignore = None\<rparr>"

text \<open>\<^verbatim>\<open>create()\<close>: \<^verbatim>\<open>lstat\<close> the path and attach the metadata.  \<open>entry_of\<close> is the object
  \<^verbatim>\<open>Object.assign\<close> builds from the path and the stat result.\<close>

definition entry_of :: "path \<Rightarrow> node \<Rightarrow> entry" where
  "entry_of p n =
     (case n of
        File c m \<Rightarrow>
          \<lparr>path = p, name = basename p, dir = dirname p, isFile = True, isDir = False,
           mode = m, relative = None, fileExists = None, fileOverwritten = None\<rparr>
      | Dir m ks \<Rightarrow>
          \<lparr>path = p, name = basename p, dir = dirname p, isFile = False, isDir = True,
           mode = m, relative = None, fileExists = None, fileOverwritten = None\<rparr>)"

definition create :: "node \<Rightarrow> path \<Rightarrow> error + entry" where
  "create fs p =
     (case lookup fs p of None \<Rightarrow> Inl ENOENT | Some n \<Rightarrow> Inr (entry_of p n))"

text \<open>Modelled from the spec: \<^verbatim>\<open>create()\<close> of the file wrapper (\<^verbatim>\<open>libs/file.js\<close> is not
  among the sources) follows the same materialize contract as the directory engine's, so
  \<open>create\<close> serves for files too.\<close>

text \<open>The template \<^verbatim>\<open>opts.relativePath ? `${opts.relativePath}/${nm}` : nm\<close>; the empty
  string is falsy.\<close>

definition stamp :: "string \<Rightarrow> string \<Rightarrow> string" where
  "stamp rel nm = (if rel \<noteq> [] then rel @ ''/'' @ nm else nm)"

definition fileFilter_of :: "('p option \<Rightarrow> matcher option) \<Rightarrow> 'p read_opts \<Rightarrow> matcher option" where
  "fileFilter_of createFileMatch opts = createFileMatch (filter_opt opts)"

definition ignoreReg_of :: "('p option \<Rightarrow> matcher option) \<Rightarrow> 'p read_opts \<Rightarrow> matcher option" where
  "ignoreReg_of createFileMatch opts =
     (case ignore opts of None \<Rightarrow> None | Some pat \<Rightarrow> createFileMatch (Some pat))"

section \<open>\<^verbatim>\<open>read\<close>\<close>

text \<open>
  \<^verbatim>\<open>read(opts)\<close> on the directory \<open>this_path\<close>; \<open>read_loop\<close> is its
  \<^verbatim>\<open>for (const file of rawFiles)\<close>, with the files still to visit and \<^verbatim>\<open>outFiles\<close>.
  \<^verbatim>\<open>path.join(this.path, file)\<close> with a name of the listing appends one component.
  The recursion descends into a strictly smaller subtree of the disk.
\<close>

definition size_at :: "node \<Rightarrow> path \<Rightarrow> nat" where
  "size_at fs p = (case lookup fs p of None \<Rightarrow> 0 | Some n \<Rightarrow> size n)"

lemma size_child: "map_of ks x = Some k \<Longrightarrow> size k < size (Dir m ks)"
  by (induction ks) (auto split: if_splits)

lemma lookup_append:
  "lookup n (p @ q) = (case lookup n p of None \<Rightarrow> None | Some k \<Rightarrow> lookup k q)"
  by (induction n p rule: lookup.induct) (auto split: option.splits)

lemma size_at_child:
  assumes "stat fs (p @ [x]) = Inr st" and "isDirectory st"
  shows "size_at fs (p @ [x]) < size_at fs p"
proof -
  from assms obtain k where k: "lookup fs (p @ [x]) = Some k"
    by (auto simp: stat_def split: option.splits)
  then obtain n where n: "lookup fs p = Some n" and nk: "lookup n [x] = Some k"
    by (auto simp: lookup_append split: option.splits)
  from nk obtain m ks where "n = Dir m ks" and "map_of ks x = Some k"
    by (cases n) (auto split: option.splits)
  then show ?thesis using k n size_child [of ks x k m] by (simp add: size_at_def)
qed

function read :: "('p option \<Rightarrow> matcher option) \<Rightarrow> node \<Rightarrow> 'p read_opts \<Rightarrow> path \<Rightarrow> error + entry list"
  and read_loop :: "('p option \<Rightarrow> matcher option) \<Rightarrow> node \<Rightarrow> 'p read_opts \<Rightarrow> path \<Rightarrow> string list
                     \<Rightarrow> entry list \<Rightarrow> error + entry list"
where
  "read createFileMatch fs opts this_path =
     (case (if addParent opts
            then (case create fs this_path of Inl e \<Rightarrow> Inl e | Inr d \<Rightarrow> Inr [d])
            else Inr []) of
        Inl e \<Rightarrow> Inl e
      | Inr outFiles \<Rightarrow>
          (case readDir fs this_path of
             Inl e \<Rightarrow> Inl e
           | Inr rawFiles \<Rightarrow>
               read_loop createFileMatch fs opts this_path
                 (case ignoreReg_of createFileMatch opts of
                    None \<Rightarrow> rawFiles
                  | Some ignoreReg \<Rightarrow>
                      filter (\<lambda>file. if ignoreReg file then True else False) rawFiles)
                 outFiles))"
| "read_loop createFileMatch fs opts this_path [] outFiles = Inr outFiles"
| "read_loop createFileMatch fs opts this_path (file # rest) outFiles =
     (case stat fs (this_path @ [file]) of
        Inl e \<Rightarrow> Inl e
      | Inr st \<Rightarrow>
          if isDirectory st then
            (case create fs (this_path @ [file]) of
               Inl e \<Rightarrow> Inl e
             | Inr d \<Rightarrow>
                 (let d' = d\<lparr>relative := Some (stamp (relativePath opts) (name d))\<rparr>;
                      outFiles' =
                        (if \<not> skipDirs opts \<and>
                            (case fileFilter_of createFileMatch opts of
                               None \<Rightarrow> True
                             | Some fileFilter \<Rightarrow> fileFilter (stamp (relativePath opts) (name d)))
                         then outFiles @ [d'] else outFiles)
                  in if recursive opts then
                       (case read createFileMatch fs
                               (opts\<lparr>relativePath := stamp (relativePath opts) file,
                                     filter_opt := filter_opt opts, addParent := False\<rparr>)
                               (this_path @ [file]) of
                          Inl e \<Rightarrow> Inl e
                        | Inr subFiles \<Rightarrow>
                            read_loop createFileMatch fs opts this_path rest
                              (outFiles' @
                               filter (\<lambda>s. \<not> (case ignoreReg_of createFileMatch opts of
                                                  None \<Rightarrow> False
                                                | Some ignoreReg \<Rightarrow> ignoreReg (path_str (path s))))
                                 subFiles))
                     else read_loop createFileMatch fs opts this_path rest outFiles'))
          else if skipFiles opts then read_loop createFileMatch fs opts this_path rest outFiles
          else if (case fileFilter_of createFileMatch opts of
                     None \<Rightarrow> False
                   | Some fileFilter \<Rightarrow> \<not> fileFilter (path_str (this_path @ [file])))
            then read_loop createFileMatch fs opts this_path rest outFiles
          else
            (case create fs (this_path @ [file]) of
               Inl e \<Rightarrow> Inl e
             | Inr fl \<Rightarrow>
                 read_loop createFileMatch fs opts this_path rest
                   (outFiles @ [fl\<lparr>relative := Some (stamp (relativePath opts) (name fl))\<rparr>])))"
  by pat_completeness auto

termination
  apply (relation "inv_image (less_than <*lex*> less_than)
     (\<lambda>x. case x of
        Inl (c, fs, opts, p) \<Rightarrow> (size_at fs p, Suc (length (case readDir fs p of Inl e \<Rightarrow> [] | Inr ns \<Rightarrow> ns)))
      | Inr (c, fs, opts, p, names, out) \<Rightarrow> (size_at fs p, length names))")
  apply (auto simp: size_at_child less_Suc_eq_le split: option.splits)
  done

declare read.simps [simp del]

section \<open>\<^verbatim>\<open>watch\<close>\<close>

text \<open>
  \<^verbatim>\<open>watch(opts, fn)\<close> up to its return: the state it changes is the list of paths a native
  listener (\<^verbatim>\<open>fs.watch\<close>) is attached to, in the order of attachment.  \<^verbatim>\<open>fs.watch\<close> throws
  on a path that does not exist.  The result is the list of watched paths and the value
  the promise resolves to.  Only \<^verbatim>\<open>opts.ignore\<close> of the options is read.
\<close>

definition fs_watch :: "node \<Rightarrow> path \<Rightarrow> error option" where
  "fs_watch fs p = (case lookup fs p of None \<Rightarrow> Some ENOENT | Some n \<Rightarrow> None)"

fun watch_loop :: "node \<Rightarrow> matcher option \<Rightarrow> entry list \<Rightarrow> path list \<Rightarrow> error + path list" where
  "watch_loop fs ignoreReg [] watchers = Inr watchers"
| "watch_loop fs ignoreReg (fl # rest) watchers =
     (if (case ignoreReg of None \<Rightarrow> False | Some m \<Rightarrow> m (path_str (path fl)))
      then watch_loop fs ignoreReg rest watchers
      else (case fs_watch fs (path fl) of
              Some e \<Rightarrow> Inl e
            | None \<Rightarrow> watch_loop fs ignoreReg rest (watchers @ [path fl])))"

definition watch :: "('p option \<Rightarrow> matcher option) \<Rightarrow> node \<Rightarrow> 'p option \<Rightarrow> path
                      \<Rightarrow> error + (path list \<times> entry list)" where
  "watch createFileMatch fs opts_ignore this_path =
     (case read createFileMatch fs
             (default_opts\<lparr>recursive := True, skipFiles := True, addParent := True\<rparr>) this_path of
        Inl e \<Rightarrow> Inl e
      | Inr dirs \<Rightarrow>
          (let ignoreReg = (case opts_ignore of None \<Rightarrow> None
                            | Some pat \<Rightarrow> createFileMatch (Some pat))
           in case watch_loop fs ignoreReg dirs [] of
                Inl e \<Rightarrow> Inl e
              | Inr watchers \<Rightarrow> Inr (watchers, dirs)))"

section \<open>\<^verbatim>\<open>Array.prototype.sort\<close>\<close>

text \<open>
  The sort of the engine Node runs on (V8 since version 7.0, Node 11): TimSort, on the
  list of the array's elements.  The comparator is called exactly where the engine calls
  it and with the same arguments, so the model is also the engine's for a comparator that
  is not consistent.  A run is a list; the pending runs are kept in array order, so that
  their concatenation followed by the part not yet looked at is the array.
\<close>

text \<open>\<^verbatim>\<open>ComputeMinRunLength\<close>: \<open>r\<close> collects the bits shifted out of \<open>n\<close>.\<close>

function compute_min_run_length :: "nat \<Rightarrow> nat \<Rightarrow> nat" where
  "compute_min_run_length n r =
     (if 64 \<le> n then compute_min_run_length (n div 2) (if odd n then 1 else r) else n + r)"
  by pat_completeness auto
termination
  by (relation "measure fst") auto

text \<open>\<^verbatim>\<open>CountAndMakeRun\<close>: the longest run the remaining part starts with, ascending (each
  element compared with its predecessor gives \<open>\<ge> 0\<close>) or strictly descending (\<open>< 0\<close>) and
  then reversed; with it, what follows the run.\<close>

fun run_ascending :: "('a \<Rightarrow> 'a \<Rightarrow> int) \<Rightarrow> 'a \<Rightarrow> 'a list \<Rightarrow> nat" where
  "run_ascending cmp previousElement [] = 0"
| "run_ascending cmp previousElement (currentElement # rest) =
     (if cmp currentElement previousElement < 0 then 0
      else Suc (run_ascending cmp currentElement rest))"

fun run_descending :: "('a \<Rightarrow> 'a \<Rightarrow> int) \<Rightarrow> 'a \<Rightarrow> 'a list \<Rightarrow> nat" where
  "run_descending cmp previousElement [] = 0"
| "run_descending cmp previousElement (currentElement # rest) =
     (if 0 \<le> cmp currentElement previousElement then 0
      else Suc (run_descending cmp currentElement rest))"

fun count_and_make_run :: "('a \<Rightarrow> 'a \<Rightarrow> int) \<Rightarrow> 'a list \<Rightarrow> 'a list \<times> 'a list" where
  "count_and_make_run cmp [] = ([], [])"
| "count_and_make_run cmp [x] = ([x], [])"
| "count_and_make_run cmp (elementHigh # elementLow # rest) =
     (if cmp elementLow elementHigh < 0
      then (let runLength = Suc (Suc (run_descending cmp elementLow rest))
            in (rev (take runLength (elementHigh # elementLow # rest)),
                drop runLength (elementHigh # elementLow # rest)))
      else (let runLength = Suc (Suc (run_ascending cmp elementLow rest))
            in (take runLength (elementHigh # elementLow # rest),
                drop runLength (elementHigh # elementLow # rest))))"

text \<open>\<^verbatim>\<open>BinaryInsertionSort\<close>: each further element is the pivot of a binary search in the
  run before it and is inserted where the search ends.\<close>

function binary_search :: "('a \<Rightarrow> 'a \<Rightarrow> int) \<Rightarrow> 'a \<Rightarrow> 'a list \<Rightarrow> nat \<Rightarrow> nat \<Rightarrow> nat" where
  "binary_search cmp pivot xs left right =
     (if left < right then
        (let mid = left + (right - left) div 2 in
         if cmp pivot (xs ! mid) < 0 then binary_search cmp pivot xs left mid
         else binary_search cmp pivot xs (mid + 1) right)
      else left)"
  by pat_completeness auto
termination
  by (relation "measure (\<lambda>(cmp, pivot, xs, left, right). right - left)") auto

fun binary_insertion_sort :: "('a \<Rightarrow> 'a \<Rightarrow> int) \<Rightarrow> 'a list \<Rightarrow> 'a list \<Rightarrow> 'a list" where
  "binary_insertion_sort cmp run [] = run"
| "binary_insertion_sort cmp run (pivot # rest) =
     (let left = binary_search cmp pivot run 0 (length run)
      in binary_insertion_sort cmp (take left run @ pivot # drop left run) rest)"

text \<open>
  \<^verbatim>\<open>GallopLeft\<close> and \<^verbatim>\<open>GallopRight\<close> differ only in the comparison made at an index, so
  both are \<open>gallop\<close> with \<open>right_of i\<close> for ``the key belongs to the right of index \<open>i\<close>'':
  the first comparison is at the hint; then the offset from the hint grows as
  \<open>1, 3, 7, \<dots>\<close> to the side the key belongs to, until a comparison says otherwise or the
  end of the run is passed; a binary search between the last two offsets ends it.  The
  result is the number of elements of the run the key belongs behind.
\<close>

function gallop_offsets :: "(nat \<Rightarrow> bool) \<Rightarrow> nat \<Rightarrow> nat \<Rightarrow> nat \<Rightarrow> nat \<times> nat" where
  "gallop_offsets continue maxOfs lastOfs offset =
     (if offset < maxOfs \<and> continue offset
      then gallop_offsets continue maxOfs offset (2 * offset + 1)
      else (lastOfs, offset))"
  by pat_completeness auto
termination
  by (relation "measure (\<lambda>(continue, maxOfs, lastOfs, offset). maxOfs - offset)") auto

function gallop_search :: "(nat \<Rightarrow> bool) \<Rightarrow> nat \<Rightarrow> nat \<Rightarrow> nat" where
  "gallop_search right_of lastOfs offset =
     (if lastOfs < offset then
        (let m = lastOfs + (offset - lastOfs) div 2 in
         if right_of m then gallop_search right_of (m + 1) offset
         else gallop_search right_of lastOfs m)
      else offset)"
  by pat_completeness auto
termination
  by (relation "measure (\<lambda>(right_of, lastOfs, offset). offset - lastOfs)") auto

definition gallop :: "(nat \<Rightarrow> bool) \<Rightarrow> nat \<Rightarrow> nat \<Rightarrow> nat" where
  "gallop right_of length_run hint =
     (if right_of hint then
        (let maxOfs = length_run - hint;
             (lastOfs, offset) = gallop_offsets (\<lambda>ofs. right_of (hint + ofs)) maxOfs 0 1
         in gallop_search right_of (lastOfs + hint + 1) (min offset maxOfs + hint))
      else
        (let maxOfs = hint + 1;
             (lastOfs, offset) = gallop_offsets (\<lambda>ofs. \<not> right_of (hint - ofs)) maxOfs 0 1
         in gallop_search right_of (hint + 1 - min offset maxOfs) (hint - lastOfs)))"

definition gallop_left :: "('a \<Rightarrow> 'a \<Rightarrow> int) \<Rightarrow> 'a \<Rightarrow> 'a list \<Rightarrow> nat \<Rightarrow> nat" where
  "gallop_left cmp key xs hint = gallop (\<lambda>i. cmp (xs ! i) key < 0) (length xs) hint"

definition gallop_right :: "('a \<Rightarrow> 'a \<Rightarrow> int) \<Rightarrow> 'a \<Rightarrow> 'a list \<Rightarrow> nat \<Rightarrow> nat" where
  "gallop_right cmp key xs hint = gallop (\<lambda>i. \<not> cmp key (xs ! i) < 0) (length xs) hint"

text \<open>
  \<^verbatim>\<open>MergeLow\<close> merges from the left: \<open>out\<close> is what is placed, \<open>as\<close> what is left of run A (in
  the temporary array) and \<open>bs\<close> what is left of run B.  The first function is the loop that
  takes one element at a time and counts the wins, the second one round of the galloping
  loop; \<^verbatim>\<open>kMinGallopWins\<close> is \<open>7\<close>.  The result is the merged run and \<^verbatim>\<open>minGallop\<close>.  The
  first branch of each is the engine's assertion (it is never taken).
\<close>

function merge_low_loop :: "('a \<Rightarrow> 'a \<Rightarrow> int) \<Rightarrow> 'a list \<Rightarrow> 'a list \<Rightarrow> 'a list \<Rightarrow> nat \<Rightarrow> nat
                              \<Rightarrow> nat \<Rightarrow> 'a list \<times> nat"
  and merge_low_gallop :: "('a \<Rightarrow> 'a \<Rightarrow> int) \<Rightarrow> 'a list \<Rightarrow> 'a list \<Rightarrow> 'a list \<Rightarrow> nat
                              \<Rightarrow> 'a list \<times> nat"
where
  "merge_low_loop cmp out as bs nofWinsA nofWinsB minGallop =
     (if length as \<le> 1 \<or> bs = [] then (out @ bs @ as, minGallop)
      else if cmp (hd bs) (hd as) < 0 then
        (if tl bs = [] then (out @ [hd bs] @ as, minGallop)
         else if minGallop \<le> nofWinsB + 1
           then merge_low_gallop cmp (out @ [hd bs]) as (tl bs) (minGallop + 1)
         else merge_low_loop cmp (out @ [hd bs]) as (tl bs) 0 (nofWinsB + 1) minGallop)
      else
        (if length (tl as) = 1 then (out @ [hd as] @ bs @ tl as, minGallop)
         else if minGallop \<le> nofWinsA + 1
           then merge_low_gallop cmp (out @ [hd as]) (tl as) bs (minGallop + 1)
         else merge_low_loop cmp (out @ [hd as]) (tl as) bs (nofWinsA + 1) 0 minGallop))"
| "merge_low_gallop cmp out as bs minGallop0 =
     (if length as \<le> 1 \<or> bs = [] then (out @ bs @ as, minGallop0)
      else
        (let minGallop = max 1 (minGallop0 - 1);
             nofWinsA = gallop_right cmp (hd bs) as 0;
             out1 = out @ take nofWinsA as;
             as1 = drop nofWinsA as
         in if 0 < nofWinsA \<and> length as1 = 1 then (out1 @ bs @ as1, minGallop)
            else if 0 < nofWinsA \<and> as1 = [] then (out1 @ bs, minGallop)
            else if tl bs = [] then (out1 @ [hd bs] @ as1, minGallop)
            else
              (let nofWinsB = gallop_left cmp (hd as1) (tl bs) 0;
                   out3 = out1 @ [hd bs] @ take nofWinsB (tl bs);
                   bs3 = drop nofWinsB (tl bs)
               in if 0 < nofWinsB \<and> bs3 = [] then (out3 @ as1, minGallop)
                  else if length (tl as1) = 1 then (out3 @ [hd as1] @ bs3 @ tl as1, minGallop)
                  else if 7 \<le> nofWinsA \<or> 7 \<le> nofWinsB
                    then merge_low_gallop cmp (out3 @ [hd as1]) (tl as1) bs3 minGallop
                  else merge_low_loop cmp (out3 @ [hd as1]) (tl as1) bs3 0 0 (minGallop + 1))))"
  by pat_completeness auto
termination
  by (relation "measure (\<lambda>x. case x of
        Inl (cmp, out, as, bs, nofWinsA, nofWinsB, minGallop) \<Rightarrow> length as + length bs
      | Inr (cmp, out, as, bs, minGallop) \<Rightarrow> length as + length bs)")
     (auto simp: neq_Nil_conv)

definition merge_low :: "('a \<Rightarrow> 'a \<Rightarrow> int) \<Rightarrow> 'a list \<Rightarrow> 'a list \<Rightarrow> nat \<Rightarrow> 'a list \<times> nat" where
  "merge_low cmp as bs minGallop =
     (if tl bs = [] then ([hd bs] @ as, minGallop)
      else if length as = 1 then ([hd bs] @ tl bs @ as, minGallop)
      else merge_low_loop cmp [hd bs] as (tl bs) 0 0 minGallop)"

text \<open>\<^verbatim>\<open>MergeHigh\<close> is the same from the right: \<open>out\<close> grows at its front, and the elements
  taken are the last ones of \<open>as\<close> (in the array) and of \<open>bs\<close> (in the temporary array).\<close>

function merge_high_loop :: "('a \<Rightarrow> 'a \<Rightarrow> int) \<Rightarrow> 'a list \<Rightarrow> 'a list \<Rightarrow> 'a list \<Rightarrow> nat \<Rightarrow> nat
                               \<Rightarrow> nat \<Rightarrow> 'a list \<times> nat"
  and merge_high_gallop :: "('a \<Rightarrow> 'a \<Rightarrow> int) \<Rightarrow> 'a list \<Rightarrow> 'a list \<Rightarrow> 'a list \<Rightarrow> nat
                               \<Rightarrow> 'a list \<times> nat"
where
  "merge_high_loop cmp as bs out nofWinsA nofWinsB minGallop =
     (if as = [] \<or> length bs \<le> 1 then (as @ bs @ out, minGallop)
      else if cmp (last bs) (last as) < 0 then
        (if butlast as = [] then (bs @ last as # out, minGallop)
         else if minGallop \<le> nofWinsA + 1
           then merge_high_gallop cmp (butlast as) bs (last as # out) (minGallop + 1)
         else merge_high_loop cmp (butlast as) bs (last as # out) (nofWinsA + 1) 0 minGallop)
      else
        (if length (butlast bs) = 1 then (butlast bs @ as @ last bs # out, minGallop)
         else if minGallop \<le> nofWinsB + 1
           then merge_high_gallop cmp as (butlast bs) (last bs # out) (minGallop + 1)
         else merge_high_loop cmp as (butlast bs) (last bs # out) 0 (nofWinsB + 1) minGallop))"
| "merge_high_gallop cmp as bs out minGallop0 =
     (if as = [] \<or> length bs \<le> 1 then (as @ bs @ out, minGallop0)
      else
        (let minGallop = max 1 (minGallop0 - 1);
             k = gallop_right cmp (last bs) as (length as - 1);
             nofWinsA = length as - k;
             out1 = drop k as @ out;
             as1 = take k as
         in if 0 < nofWinsA \<and> as1 = [] then (bs @ out1, minGallop)
            else if length (butlast bs) = 1 then (butlast bs @ as1 @ last bs # out1, minGallop)
            else
              (let k' = gallop_left cmp (last as1) (butlast bs) (length (butlast bs) - 1);
                   nofWinsB = length (butlast bs) - k';
                   out3 = drop k' (butlast bs) @ last bs # out1;
                   bs3 = take k' (butlast bs)
               in if 0 < nofWinsB \<and> length bs3 = 1 then (bs3 @ as1 @ out3, minGallop)
                  else if 0 < nofWinsB \<and> bs3 = [] then (as1 @ out3, minGallop)
                  else if butlast as1 = [] then (bs3 @ last as1 # out3, minGallop)
                  else if 7 \<le> nofWinsA \<or> 7 \<le> nofWinsB
                    then merge_high_gallop cmp (butlast as1) bs3 (last as1 # out3) minGallop
                  else merge_high_loop cmp (butlast as1) bs3 (last as1 # out3) 0 0
                         (minGallop + 1))))"
  by pat_completeness auto
termination
proof (relation "measure (\<lambda>x. case x of
        Inl (cmp, as, bs, out, nofWinsA, nofWinsB, minGallop) \<Rightarrow> length as + length bs
      | Inr (cmp, as, bs, out, minGallop) \<Rightarrow> length as + length bs)")
  let ?M = "measure (\<lambda>x. case x of
        Inl (cmp :: 'a \<Rightarrow> 'a \<Rightarrow> int, as :: 'a list, bs :: 'a list, out :: 'a list,
             nofWinsA :: nat, nofWinsB :: nat, minGallop :: nat) \<Rightarrow> length as + length bs
      | Inr (cmp, as, bs, out, minGallop) \<Rightarrow> length as + length bs)"
  fix cmp :: "'a \<Rightarrow> 'a \<Rightarrow> int" and as bs out out' :: "'a list"
    and nofWinsA nofWinsB minGallop g g' w w' :: nat
  {
    assume "butlast as \<noteq> []"
    then have "length (butlast as) + length bs < length as + length bs"
      by (cases as rule: rev_cases) simp_all
    then show "(Inr (cmp, butlast as, bs, out', g), Inl (cmp, as, bs, out, nofWinsA, nofWinsB, minGallop))
               \<in> ?M"
      and "(Inl (cmp, butlast as, bs, out', w, w', g), Inl (cmp, as, bs, out, nofWinsA, nofWinsB, minGallop))
               \<in> ?M"
      by simp_all
  }
  {
    assume "\<not> (as = [] \<or> length bs \<le> 1)"
    then have "length as + length (butlast bs) < length as + length bs"
      by (cases bs rule: rev_cases) simp_all
    then show "(Inr (cmp, as, butlast bs, out', g), Inl (cmp, as, bs, out, nofWinsA, nofWinsB, minGallop))
               \<in> ?M"
      and "(Inl (cmp, as, butlast bs, out', w, w', g), Inl (cmp, as, bs, out, nofWinsA, nofWinsB, minGallop))
               \<in> ?M"
      by simp_all
  }
  {
    fix k k' :: nat and as1 bs3 :: "'a list"
    assume "as1 = take k as" and "bs3 = take k' (butlast bs)" and "butlast as1 \<noteq> []"
      and "\<not> (as = [] \<or> length bs \<le> 1)"
    have "length (butlast as1) < length as1"
      using \<open>butlast as1 \<noteq> []\<close> by (cases as1 rule: rev_cases) simp_all
    moreover have "length as1 \<le> length as" using \<open>as1 = take k as\<close> by simp
    moreover have "length bs3 \<le> length bs" using \<open>bs3 = take k' (butlast bs)\<close> by simp
    ultimately have "length (butlast as1) + length bs3 < length as + length bs"
      by linarith
    then show "(Inr (cmp, butlast as1, bs3, out', g), Inr (cmp, as, bs, out, minGallop)) \<in> ?M"
      and "(Inl (cmp, butlast as1, bs3, out', w, w', g), Inr (cmp, as, bs, out, minGallop)) \<in> ?M"
      by simp_all
  }
qed simp

definition merge_high :: "('a \<Rightarrow> 'a \<Rightarrow> int) \<Rightarrow> 'a list \<Rightarrow> 'a list \<Rightarrow> nat \<Rightarrow> 'a list \<times> nat" where
  "merge_high cmp as bs minGallop =
     (if butlast as = [] then (bs @ [last as], minGallop)
      else if length bs = 1 then (bs @ butlast as @ [last as], minGallop)
      else merge_high_loop cmp (butlast as) bs [last as] 0 0 minGallop)"

text \<open>
  \<^verbatim>\<open>MergeAt\<close> on two neighbouring runs: the elements of A that the first element of B
  belongs behind stay, as do the elements of B that the last element of A belongs before;
  what is between is merged from the side of the shorter part.
\<close>

definition merge_runs :: "('a \<Rightarrow> 'a \<Rightarrow> int) \<Rightarrow> 'a list \<Rightarrow> 'a list \<Rightarrow> nat \<Rightarrow> 'a list \<times> nat" where
  "merge_runs cmp runA runB minGallop =
     (let k = gallop_right cmp (hd runB) runA 0;
          as = drop k runA
      in if as = [] then (runA @ runB, minGallop)
         else
           (let lengthB = gallop_left cmp (last as) runB (length runB - 1);
                bs = take lengthB runB
            in if bs = [] then (runA @ runB, minGallop)
               else
                 (case (if length as \<le> length bs then merge_low cmp as bs minGallop
                        else merge_high cmp as bs minGallop) of
                    (merged, minGallop') \<Rightarrow>
                      (take k runA @ merged @ drop lengthB runB, minGallop'))))"

definition merge_at :: "('a \<Rightarrow> 'a \<Rightarrow> int) \<Rightarrow> nat \<Rightarrow> 'a list list \<Rightarrow> nat \<Rightarrow> 'a list list \<times> nat" where
  "merge_at cmp i pendingRuns minGallop =
     (case merge_runs cmp (pendingRuns ! i) (pendingRuns ! (i + 1)) minGallop of
        (merged, minGallop') \<Rightarrow>
          (take i pendingRuns @ [merged] @ drop (i + 2) pendingRuns, minGallop'))"

text \<open>\<^verbatim>\<open>RunInvariantEstablished\<close>, \<^verbatim>\<open>MergeCollapse\<close> and \<^verbatim>\<open>MergeForceCollapse\<close>.\<close>

definition run_invariant_established :: "'a list list \<Rightarrow> nat \<Rightarrow> bool" where
  "run_invariant_established pendingRuns n =
     (if n < 2 then True
      else length (pendingRuns ! n) + length (pendingRuns ! (n - 1))
             < length (pendingRuns ! (n - 2)))"

lemma length_merge_at:
  "i + 1 < length pendingRuns \<Longrightarrow>
     length (fst (merge_at cmp i pendingRuns minGallop)) = length pendingRuns - 1"
  by (simp add: merge_at_def split: prod.split)

function merge_collapse :: "('a \<Rightarrow> 'a \<Rightarrow> int) \<Rightarrow> 'a list list \<Rightarrow> nat \<Rightarrow> 'a list list \<times> nat" where
  "merge_collapse cmp pendingRuns minGallop =
     (if 1 < length pendingRuns then
        (let n = length pendingRuns - 2 in
         if \<not> run_invariant_established pendingRuns (n + 1)
            \<or> \<not> run_invariant_established pendingRuns n
         then
           (let i = (if length (pendingRuns ! (n - 1)) < length (pendingRuns ! (n + 1))
                     then n - 1 else n)
            in merge_collapse cmp (fst (merge_at cmp i pendingRuns minGallop))
                 (snd (merge_at cmp i pendingRuns minGallop)))
         else if length (pendingRuns ! n) \<le> length (pendingRuns ! (n + 1)) then
           merge_collapse cmp (fst (merge_at cmp n pendingRuns minGallop))
             (snd (merge_at cmp n pendingRuns minGallop))
         else (pendingRuns, minGallop))
      else (pendingRuns, minGallop))"
  by pat_completeness auto
termination
proof (relation "measure (\<lambda>(cmp, pendingRuns, minGallop). length pendingRuns)")
  fix cmp :: "'a \<Rightarrow> 'a \<Rightarrow> int" and pendingRuns :: "'a list list" and minGallop n i :: nat
  assume l: "1 < length pendingRuns" and n: "n = length pendingRuns - 2"
    and i: "i = (if length (pendingRuns ! (n - 1)) < length (pendingRuns ! (n + 1))
                 then n - 1 else n)"
  from l n i have "i + 1 < length pendingRuns" by auto
  from length_merge_at [OF this, of cmp minGallop] l
  show "((cmp, fst (merge_at cmp i pendingRuns minGallop), snd (merge_at cmp i pendingRuns minGallop)),
         (cmp, pendingRuns, minGallop)) \<in> measure (\<lambda>(cmp, pendingRuns, minGallop). length pendingRuns)"
    by (simp add: case_prod_beta)
next
  fix cmp :: "'a \<Rightarrow> 'a \<Rightarrow> int" and pendingRuns :: "'a list list" and minGallop n :: nat
  assume l: "1 < length pendingRuns" and n: "n = length pendingRuns - 2"
  from l n have "n + 1 < length pendingRuns" by auto
  from length_merge_at [OF this, of cmp minGallop] l
  show "((cmp, fst (merge_at cmp n pendingRuns minGallop), snd (merge_at cmp n pendingRuns minGallop)),
         (cmp, pendingRuns, minGallop)) \<in> measure (\<lambda>(cmp, pendingRuns, minGallop). length pendingRuns)"
    by (simp add: case_prod_beta)
qed simp

function merge_force_collapse :: "('a \<Rightarrow> 'a \<Rightarrow> int) \<Rightarrow> 'a list list \<Rightarrow> nat \<Rightarrow> 'a list list \<times> nat" where
  "merge_force_collapse cmp pendingRuns minGallop =
     (if 1 < length pendingRuns then
        (let n = length pendingRuns - 2;
             i = (if 0 < n \<and> length (pendingRuns ! (n - 1)) < length (pendingRuns ! (n + 1))
                  then n - 1 else n)
         in merge_force_collapse cmp (fst (merge_at cmp i pendingRuns minGallop))
              (snd (merge_at cmp i pendingRuns minGallop)))
      else (pendingRuns, minGallop))"
  by pat_completeness auto
termination
proof (relation "measure (\<lambda>(cmp, pendingRuns, minGallop). length pendingRuns)")
  fix cmp :: "'a \<Rightarrow> 'a \<Rightarrow> int" and pendingRuns :: "'a list list" and minGallop n i :: nat
  assume l: "1 < length pendingRuns" and n: "n = length pendingRuns - 2"
    and i: "i = (if 0 < n \<and> length (pendingRuns ! (n - 1)) < length (pendingRuns ! (n + 1))
                 then n - 1 else n)"
  from l n i have "i + 1 < length pendingRuns" by auto
  from length_merge_at [OF this, of cmp minGallop] l
  show "((cmp, fst (merge_at cmp i pendingRuns minGallop), snd (merge_at cmp i pendingRuns minGallop)),
         (cmp, pendingRuns, minGallop)) \<in> measure (\<lambda>(cmp, pendingRuns, minGallop). length pendingRuns)"
    by (simp add: case_prod_beta)
qed simp

text \<open>\<^verbatim>\<open>ArrayTimSortImpl\<close>: the loop over the part of the array not yet looked at, and the
  sort itself; an array of fewer than two elements is left as it is.  A run shorter than
  the minimal run length is extended by binary insertion of the elements that follow.\<close>

lemma length_count_and_make_run:
  "remaining \<noteq> [] \<Longrightarrow> length (snd (count_and_make_run cmp remaining)) < length remaining"
  by (induction cmp remaining rule: count_and_make_run.induct) (auto simp: Let_def)

function tim_sort_loop :: "('a \<Rightarrow> 'a \<Rightarrow> int) \<Rightarrow> nat \<Rightarrow> 'a list list \<Rightarrow> 'a list \<Rightarrow> nat \<Rightarrow> 'a list list" where
  "tim_sort_loop cmp minRunLength pendingRuns remaining minGallop =
     (if remaining = [] then fst (merge_force_collapse cmp pendingRuns minGallop)
      else
        (let run = fst (count_and_make_run cmp remaining);
             rest = snd (count_and_make_run cmp remaining);
             forced = min minRunLength (length remaining) - length run;
             currentRun = (if length run < minRunLength
                           then binary_insertion_sort cmp run (take forced rest) else run);
             rest' = (if length run < minRunLength then drop forced rest else rest)
         in tim_sort_loop cmp minRunLength
              (fst (merge_collapse cmp (pendingRuns @ [currentRun]) minGallop)) rest'
              (snd (merge_collapse cmp (pendingRuns @ [currentRun]) minGallop))))"
  by pat_completeness auto
termination
proof (relation "measure (\<lambda>(cmp, minRunLength, pendingRuns, remaining, minGallop). length remaining)")
  fix cmp :: "'a \<Rightarrow> 'a \<Rightarrow> int" and minRunLength minGallop forced :: nat
    and pendingRuns :: "'a list list" and remaining run rest currentRun rest' :: "'a list"
  assume "remaining \<noteq> []" and "rest = snd (count_and_make_run cmp remaining)"
    and "rest' = (if length run < minRunLength then drop forced rest else rest)"
  then have "length rest' < length remaining"
    using length_count_and_make_run [of remaining cmp] by auto
  then show "((cmp, minRunLength, fst (merge_collapse cmp (pendingRuns @ [currentRun]) minGallop),
               rest', snd (merge_collapse cmp (pendingRuns @ [currentRun]) minGallop)),
              (cmp, minRunLength, pendingRuns, remaining, minGallop))
             \<in> measure (\<lambda>(cmp, minRunLength, pendingRuns, remaining, minGallop). length remaining)"
    by simp
qed simp

definition array_sort :: "('a \<Rightarrow> 'a \<Rightarrow> int) \<Rightarrow> 'a list \<Rightarrow> 'a list" where
  "array_sort cmp xs =
     (if length xs < 2 then xs
      else concat (tim_sort_loop cmp (compute_min_run_length (length xs) 0) [] xs 7))"

declare compute_min_run_length.simps [simp del]
declare binary_search.simps [simp del]
declare gallop_offsets.simps [simp del]
declare gallop_search.simps [simp del]
declare merge_low_loop.simps [simp del] merge_low_gallop.simps [simp del]
declare merge_high_loop.simps [simp del] merge_high_gallop.simps [simp del]
declare merge_collapse.simps [simp del] merge_force_collapse.simps [simp del]
declare tim_sort_loop.simps [simp del]

section \<open>\<^verbatim>\<open>delete\<close>\<close>

text \<open>
  The comparator \<^verbatim>\<open>(a, b) => a.isDir ? 1 : -1\<close> answers from its first argument alone;
  \<^verbatim>\<open>files.sort\<close> is the engine's sort above.  \<open>delete_loop\<close> gives the entries removed, in
  order, the disk left, and the error that stopped the loop, if any; \<open>delete\<close> gives the
  same with the value of the promise.
\<close>

definition isDir_cmp :: "entry \<Rightarrow> entry \<Rightarrow> int" where
  "isDir_cmp a b = (if isDir a then 1 else - 1)"

fun delete_loop :: "node \<Rightarrow> entry list \<Rightarrow> entry list \<times> node \<times> error option" where
  "delete_loop fs [] = ([], fs, None)"
| "delete_loop fs (fl # rest) =
     (case (if isDir fl then removeDir fs (path fl) else removeFile fs (path fl)) of
        Inl e \<Rightarrow> ([], fs, Some e)
      | Inr fs' \<Rightarrow>
          (case delete_loop fs' rest of (removed, fs'', err) \<Rightarrow> (fl # removed, fs'', err)))"

definition delete :: "('p option \<Rightarrow> matcher option) \<Rightarrow> node \<Rightarrow> path
                       \<Rightarrow> entry list \<times> node \<times> (error + entry list)" where
  "delete createFileMatch fs this_path =
     (case read createFileMatch fs (default_opts\<lparr>recursive := True\<rparr>) this_path of
        Inl e \<Rightarrow> ([], fs, Inl e)
      | Inr files \<Rightarrow>
          (let sortedFiles = array_sort isDir_cmp files
           in case delete_loop fs sortedFiles of
                (removed, fs', Some e) \<Rightarrow> (removed, fs', Inl e)
              | (removed, fs', None) \<Rightarrow> (removed, fs', Inr sortedFiles)))"

text \<open>The order \<^verbatim>\<open>delete\<close> is after, for a list and a predicate \<open>P\<close> (``is a directory''):
  the elements without \<open>P\<close> first, then the elements with \<open>P\<close>.\<close>

definition files_first :: "('a \<Rightarrow> bool) \<Rightarrow> 'a list \<Rightarrow> bool" where
  "files_first P xs = (xs = filter (\<lambda>x. \<not> P x) xs @ filter P xs)"

section \<open>\<^verbatim>\<open>mkdir\<close> and \<^verbatim>\<open>copy\<close>\<close>

text \<open>Modelled from the spec: \<^verbatim>\<open>FSTools.createPathArray\<close>, the ordered list of the
  directories needed for the target, root to leaf: every non-empty prefix of the path.\<close>

definition createPathArray :: "path \<Rightarrow> path list" where
  "createPathArray p = map (\<lambda>n. take n p) [1..<Suc (length p)]"

text \<open>\<^verbatim>\<open>mkdir(dir, opts)\<close> of the directory engine; \<^verbatim>\<open>FSTools.exists\<close> is the access check and
  \<^verbatim>\<open>FSTools.createDir\<close> the make-directory primitive with the mode \<^verbatim>\<open>opts\<close> (\<open>0o777 = 511\<close>
  when \<^verbatim>\<open>copy\<close> calls it without one).\<close>

fun mkdir_loop :: "node \<Rightarrow> path list \<Rightarrow> nat \<Rightarrow> node \<times> error option" where
  "mkdir_loop fs [] md = (fs, None)"
| "mkdir_loop fs (d # ds) md =
     (if fs_access fs d = None then mkdir_loop fs ds md
      else (case fs_mkdir fs d md of
              Inl e \<Rightarrow> (fs, Some e)
            | Inr fs' \<Rightarrow> mkdir_loop fs' ds md))"

definition mkdir :: "node \<Rightarrow> path \<Rightarrow> nat \<Rightarrow> node \<times> error option" where
  "mkdir fs target md = mkdir_loop fs (createPathArray target) md"

text \<open>\<^verbatim>\<open>path.join(dest, relative)\<close> for a normalised absolute \<^verbatim>\<open>dest\<close>: the relative string is
  split at \<^verbatim>\<open>/\<close>; empty segments and \<^verbatim>\<open>.\<close> are dropped and \<^verbatim>\<open>..\<close> removes the last
  component.\<close>

definition split_slash :: "string \<Rightarrow> string list" where
  "split_slash s =
     foldr (\<lambda>ch acc. if ch = CHR ''/'' then [] # acc else (ch # hd acc) # tl acc) s [[]]"

definition path_join :: "path \<Rightarrow> string \<Rightarrow> path" where
  "path_join base rel =
     foldl (\<lambda>acc seg. if seg = [] \<or> seg = ''.'' then acc
                       else if seg = ''..'' then butlast acc
                       else acc @ [seg]) base (split_slash rel)"

text \<open>The options of \<^verbatim>\<open>copy\<close> after the two defaulting steps; a mode of \<open>0\<close> is falsy, as an
  absent one.\<close>

record copy_opts =
  recursive_copy :: bool
  overwrite :: bool
  dirMode :: "nat option"
  fileMode :: "nat option"

datatype copy_arg = OptsTrue | OptsUndefined | Opts copy_opts

definition copy_defaults :: "copy_arg \<Rightarrow> copy_opts" where
  "copy_defaults a =
     (case a of
        OptsTrue \<Rightarrow> \<lparr>recursive_copy = True, overwrite = False, dirMode = None, fileMode = None\<rparr>
      | OptsUndefined \<Rightarrow>
          \<lparr>recursive_copy = False, overwrite = False, dirMode = None, fileMode = None\<rparr>
      | Opts opts \<Rightarrow> opts)"

definition mode_or :: "nat option \<Rightarrow> nat \<Rightarrow> nat" where
  "mode_or m dflt = (case m of None \<Rightarrow> dflt | Some v \<Rightarrow> if v \<noteq> 0 then v else dflt)"

text \<open>
  The loop of \<^verbatim>\<open>copy\<close> over the entries read.  Its state is the disk and the list of the
  paths \<^verbatim>\<open>FSTools.writeFile\<close> was called on with success; the entries come back with
  \<^verbatim>\<open>fileExists\<close> and \<^verbatim>\<open>fileOverwritten\<close> set.  An entry without a relative path makes
  \<^verbatim>\<open>path.join\<close> throw.
\<close>

fun copy_loop :: "copy_opts \<Rightarrow> path \<Rightarrow> node \<Rightarrow> path list \<Rightarrow> entry list
                    \<Rightarrow> node \<times> path list \<times> (error + entry list)" where
  "copy_loop opts dest fs written [] = (fs, written, Inr [])"
| "copy_loop opts dest fs written (fl # rest) =
     (case relative fl of
        None \<Rightarrow> (fs, written, Inl TypeError)
      | Some rel \<Rightarrow>
          (let destFile = path_join dest rel in
           if isDir fl then
             (case mkdir fs destFile (mode_or (dirMode opts) (mode fl)) of
                (fs', Some e) \<Rightarrow> (fs', written, Inl e)
              | (fs', None) \<Rightarrow>
                  (case copy_loop opts dest fs' written rest of
                     (fs'', written', Inl e) \<Rightarrow> (fs'', written', Inl e)
                   | (fs'', written', Inr fls) \<Rightarrow> (fs'', written', Inr (fl # fls))))
           else
             (case readFile fs (path fl) of
                Inl e \<Rightarrow> (fs, written, Inl e)
              | Inr data \<Rightarrow>
                  (let targetExists = (fs_access fs destFile = None);
                       fl' = fl\<lparr>fileExists := Some targetExists,
                                 fileOverwritten := Some (overwrite opts)\<rparr>
                   in if \<not> targetExists \<or> overwrite opts then
                        (case writeFile fs destFile data (mode_or (fileMode opts) (mode fl)) of
                           Inl e \<Rightarrow> (fs, written, Inl e)
                         | Inr fs' \<Rightarrow>
                             (case copy_loop opts dest fs' (written @ [destFile]) rest of
                                (fs'', written', Inl e) \<Rightarrow> (fs'', written', Inl e)
                              | (fs'', written', Inr fls) \<Rightarrow> (fs'', written', Inr (fl' # fls))))
                      else
                        (case copy_loop opts dest fs written rest of
                           (fs'', written', Inl e) \<Rightarrow> (fs'', written', Inl e)
                         | (fs'', written', Inr fls) \<Rightarrow> (fs'', written', Inr (fl' # fls)))))))"

definition copy :: "('p option \<Rightarrow> matcher option) \<Rightarrow> node \<Rightarrow> path \<Rightarrow> path \<Rightarrow> copy_arg
                     \<Rightarrow> node \<times> path list \<times> (error + entry list)" where
  "copy createFileMatch fs this_path dest arg =
     (let opts = copy_defaults arg in
      case (if fs_access fs dest \<noteq> None then mkdir fs dest 511 else (fs, None)) of
        (fs0, Some e) \<Rightarrow> (fs0, [], Inl e)
      | (fs0, None) \<Rightarrow>
          (case read createFileMatch fs0 (default_opts\<lparr>recursive := True\<rparr>) this_path of
             Inl e \<Rightarrow> (fs0, [], Inl e)
           | Inr files \<Rightarrow> copy_loop opts dest fs0 [] files))"

section \<open>Trees, for the completeness of the recursive read\<close>

text \<open>A directory tree as a disk holds it: within a directory the names are distinct and
  none is empty.  \<open>join_slash\<close> joins components with \<^verbatim>\<open>/\<close>.  \<open>rel_paths\<close> lists, parent
  before children and in listing order, the path of every file and directory beneath a
  node, relative to that node.\<close>

fun wf_node :: "node \<Rightarrow> bool" where
  "wf_node (File c m) = True"
| "wf_node (Dir m ks) =
     (distinct (map fst ks) \<and> (\<forall>xk\<in>set ks. fst xk \<noteq> [] \<and> wf_node (snd xk)))"

fun join_slash :: "string list \<Rightarrow> string" where
  "join_slash [] = []"
| "join_slash [x] = x"
| "join_slash (x # y # ys) = x @ ''/'' @ join_slash (y # ys)"

fun rel_paths :: "node \<Rightarrow> path list" where
  "rel_paths (File c m) = []"
| "rel_paths (Dir m ks) =
     concat (map (\<lambda>xk. [fst xk] # map ((#) (fst xk)) (rel_paths (snd xk))) ks)"

section \<open>A concrete disk and a concrete matcher compiler\<close>

text \<open>For the concrete instances of the theorems below: a pattern is a collection of
  literal strings, the matcher accepts exactly these, and no pattern gives no matcher.
  The disk holds \<^verbatim>\<open>/root/a.txt\<close>, \<^verbatim>\<open>/root/sub/b.txt\<close> and \<^verbatim>\<open>/root/sub/c.txt\<close>.\<close>

definition cfm_literals :: "string list option \<Rightarrow> matcher option" where
  "cfm_literals pat = (case pat of None \<Rightarrow> None | Some ps \<Rightarrow> Some (\<lambda>s. s \<in> set ps))"

definition disk1 :: node where
  "disk1 =
     Dir 493 [(''root'', Dir 493 [(''a.txt'', File ''A'' 420),
                                  (''sub'', Dir 493 [(''b.txt'', File ''B'' 420),
                                                     (''c.txt'', File ''C'' 420)])])]"

section \<open>Properties\<close>

text \<open>
  C7.  \<^verbatim>\<open>exists()\<close> resolves to true when the path is accessible and to false when the
  access check fails, whatever the error is; it never rejects.
\<close>

theorem exists_never_rejects:
  "exists_callback None = Resolved True
   \<and> exists_callback (Some e) = Resolved False
   \<and> exists_dir fs p = Resolved (fs_access fs p = None)
   \<and> exists_dir fs p \<noteq> Rejected e'"
  by (simp add: exists_callback_def exists_dir_def split: option.split)

theorem exists_never_rejects_witness:
  "exists_dir (Dir 493 [(''a'', File ''x'' 420)]) [''a''] = Resolved True
   \<and> exists_dir (Dir 493 [(''a'', File ''x'' 420)]) [''b''] = Resolved False"
  using exists_never_rejects [of ENOENT "Dir 493 [(''a'', File ''x'' 420)]" "[''a'']" ENOENT]
    exists_never_rejects [of ENOENT "Dir 493 [(''a'', File ''x'' 420)]" "[''b'']" ENOENT]
  by (simp add: fs_access_def)

text \<open>
  C10.  When the parent of the target is the root \<^verbatim>\<open>/\<close> and the target does not exist,
  the helper calls \<^verbatim>\<open>done\<close> without an error and leaves the disk as it was, so the
  target still does not exist after the reported success.
\<close>

theorem mkdir_helper_below_root:
  assumes "butlast target = []" and "fs_access fs target \<noteq> None"
  shows "mkdir_helper fs target = (None, fs)
         \<and> fs_access (snd (mkdir_helper fs target)) target \<noteq> None"
  using assms by (auto split: option.splits)

theorem mkdir_helper_below_root_witness:
  "mkdir_helper (Dir 493 []) [''tmp''] = (None, Dir 493 [])
   \<and> fs_access (Dir 493 []) [''tmp''] = Some ENOENT"
  using mkdir_helper_below_root [of "[''tmp'']" "Dir 493 []"]
  by (simp add: fs_access_def)

subsection \<open>The loop of \<^verbatim>\<open>read\<close>, one round at a time\<close>

text \<open>Names for the pieces of \<^verbatim>\<open>read\<close>: the names that pass the first ignore test, the
  options of the recursive call, the second ignore test, the two inclusion tests, and
  \<open>visit\<close>, what one round of the loop appends to \<^verbatim>\<open>outFiles\<close>.\<close>

definition first_pass :: "('p option \<Rightarrow> matcher option) \<Rightarrow> 'p read_opts \<Rightarrow> string list \<Rightarrow> string list" where
  "first_pass c opts rawFiles =
     (case ignoreReg_of c opts of None \<Rightarrow> rawFiles | Some m \<Rightarrow> filter m rawFiles)"

definition sub_opts :: "'p read_opts \<Rightarrow> string \<Rightarrow> 'p read_opts" where
  "sub_opts opts file =
     opts\<lparr>relativePath := stamp (relativePath opts) file, filter_opt := filter_opt opts,
          addParent := False\<rparr>"

definition ignored :: "('p option \<Rightarrow> matcher option) \<Rightarrow> 'p read_opts \<Rightarrow> entry \<Rightarrow> bool" where
  "ignored c opts s =
     (case ignoreReg_of c opts of None \<Rightarrow> False | Some m \<Rightarrow> m (path_str (path s)))"

definition dir_kept :: "('p option \<Rightarrow> matcher option) \<Rightarrow> 'p read_opts \<Rightarrow> string \<Rightarrow> bool" where
  "dir_kept c opts file =
     (\<not> skipDirs opts \<and>
      (case fileFilter_of c opts of None \<Rightarrow> True
       | Some f \<Rightarrow> f (stamp (relativePath opts) file)))"

definition file_kept :: "('p option \<Rightarrow> matcher option) \<Rightarrow> 'p read_opts \<Rightarrow> path \<Rightarrow> bool" where
  "file_kept c opts filepath =
     (\<not> skipFiles opts \<and>
      (case fileFilter_of c opts of None \<Rightarrow> True | Some f \<Rightarrow> f (path_str filepath)))"

definition visit :: "('p option \<Rightarrow> matcher option) \<Rightarrow> node \<Rightarrow> 'p read_opts \<Rightarrow> path \<Rightarrow> string
                      \<Rightarrow> error + entry list" where
  "visit c fs opts p file =
     (case stat fs (p @ [file]) of
        Inl e \<Rightarrow> Inl e
      | Inr st \<Rightarrow>
          (case create fs (p @ [file]) of
             Inl e \<Rightarrow>
               (if isDirectory st \<or> file_kept c opts (p @ [file]) then Inl e else Inr [])
           | Inr d \<Rightarrow>
               if isDirectory st then
                 (case (if recursive opts then read c fs (sub_opts opts file) (p @ [file])
                        else Inr []) of
                    Inl e \<Rightarrow> Inl e
                  | Inr subFiles \<Rightarrow>
                      Inr ((if dir_kept c opts (name d)
                            then [d\<lparr>relative := Some (stamp (relativePath opts) (name d))\<rparr>]
                            else [])
                           @ filter (\<lambda>s. \<not> ignored c opts s) subFiles))
               else if file_kept c opts (p @ [file])
                 then Inr [d\<lparr>relative := Some (stamp (relativePath opts) (name d))\<rparr>]
                 else Inr []))"

lemma read_loop_Cons:
  "read_loop c fs opts p (file # rest) out =
     (case visit c fs opts p file of
        Inl e \<Rightarrow> Inl e
      | Inr r \<Rightarrow> read_loop c fs opts p rest (out @ r))"
  by (simp add: visit_def Let_def sub_opts_def dir_kept_def file_kept_def ignored_def
           split: sum.split option.split)

declare read_loop.simps(2) [simp del]

lemma read_loop_acc:
  "read_loop c fs opts p names out =
     (case read_loop c fs opts p names [] of Inl e \<Rightarrow> Inl e | Inr r \<Rightarrow> Inr (out @ r))"
proof (induction names arbitrary: out)
  case Nil
  show ?case by simp
next
  case (Cons x xs)
  show ?case
  proof (cases "visit c fs opts p x")
    case (Inl e)
    then show ?thesis by (simp add: read_loop_Cons)
  next
    case (Inr r)
    have "read_loop c fs opts p (x # xs) out = read_loop c fs opts p xs (out @ r)"
      using Inr by (simp add: read_loop_Cons)
    also have "\<dots> = (case read_loop c fs opts p xs [] of Inl e \<Rightarrow> Inl e
                      | Inr r' \<Rightarrow> Inr ((out @ r) @ r'))"
      by (rule Cons.IH)
    finally have lhs: "read_loop c fs opts p (x # xs) out =
        (case read_loop c fs opts p xs [] of Inl e \<Rightarrow> Inl e | Inr r' \<Rightarrow> Inr (out @ r @ r'))"
      by (simp split: sum.split)
    have "read_loop c fs opts p (x # xs) [] = read_loop c fs opts p xs r"
      using Inr by (simp add: read_loop_Cons)
    also have "\<dots> = (case read_loop c fs opts p xs [] of Inl e \<Rightarrow> Inl e
                      | Inr r' \<Rightarrow> Inr (r @ r'))"
      by (rule Cons.IH)
    finally show ?thesis using lhs by (simp split: sum.split)
  qed
qed

lemma read_loop_Inr_iff:
  "read_loop c fs opts p names out = Inr es \<longleftrightarrow>
     (\<exists>rs. list_all2 (\<lambda>x r. visit c fs opts p x = Inr r) names rs \<and> es = out @ concat rs)"
proof (induction names arbitrary: out es)
  case Nil
  show ?case by auto
next
  case (Cons x xs)
  show ?case
  proof (cases "visit c fs opts p x")
    case (Inl e)
    then show ?thesis by (auto simp: read_loop_Cons list_all2_Cons1)
  next
    case (Inr r)
    then show ?thesis
      by (auto simp: read_loop_Cons list_all2_Cons1 Cons.IH)
  qed
qed

definition parent_part :: "node \<Rightarrow> 'p read_opts \<Rightarrow> path \<Rightarrow> error + entry list" where
  "parent_part fs opts p =
     (if addParent opts
      then (case create fs p of Inl e \<Rightarrow> Inl e | Inr d \<Rightarrow> Inr [d])
      else Inr [])"

lemma read_Inr_iff:
  "read c fs opts p = Inr es \<longleftrightarrow>
     (\<exists>par rawFiles rs.
        parent_part fs opts p = Inr par \<and> readDir fs p = Inr rawFiles \<and>
        list_all2 (\<lambda>x r. visit c fs opts p x = Inr r) (first_pass c opts rawFiles) rs \<and>
        es = par @ concat rs)"
proof -
  have fp: "\<And>rawFiles. (case ignoreReg_of c opts of None \<Rightarrow> rawFiles
              | Some ignoreReg \<Rightarrow> filter (\<lambda>file. if ignoreReg file then True else False) rawFiles)
            = first_pass c opts rawFiles"
    by (simp add: first_pass_def split: option.split)
  show ?thesis
    unfolding read.simps [of c fs opts p] fp parent_part_def [symmetric]
    by (cases "parent_part fs opts p"; cases "readDir fs p")
       (auto simp: read_loop_Inr_iff)
qed

lemma stat_Inr:
  "stat fs q = Inr st \<Longrightarrow>
     \<exists>n. lookup fs q = Some n \<and> isDir (entry_of q n) = isDirectory st
         \<and> isFile (entry_of q n) = (\<not> isDirectory st)"
  by (auto simp: stat_def entry_of_def split: option.splits node.splits)

lemma entry_of_fields [simp]:
  "path (entry_of q n) = q" "name (entry_of q n) = basename q"
  "relative (entry_of q n) = None" "dir (entry_of q n) = dirname q"
  by (auto simp: entry_of_def split: node.splits)

lemma basename_snoc [simp]: "basename (p @ [x]) = x"
  by (simp add: basename_def)

lemma listed_lookup:
  assumes "readDir fs p = Inr ns" and "x \<in> set ns"
  shows "\<exists>n. lookup fs (p @ [x]) = Some n"
proof -
  from assms(1) obtain m ks where d: "lookup fs p = Some (Dir m ks)" and ns: "ns = map fst ks"
    by (auto simp: readDir_def split: option.splits node.splits)
  from assms(2) ns obtain k where "map_of ks x = Some k"
    by (metis map_of_eq_None_iff not_Some_eq set_map)
  then show ?thesis using d by (simp add: lookup_append)
qed

text \<open>What one round of the loop appends, once the stat of the name has succeeded.\<close>

lemma visit_stat:
  assumes "stat fs (p @ [x]) = Inr st" and "lookup fs (p @ [x]) = Some n"
  shows "visit c fs opts p x =
     (if isDirectory st then
        (case (if recursive opts then read c fs (sub_opts opts x) (p @ [x]) else Inr []) of
           Inl e \<Rightarrow> Inl e
         | Inr subFiles \<Rightarrow>
             Inr ((if dir_kept c opts x
                   then [(entry_of (p @ [x]) n)\<lparr>relative := Some (stamp (relativePath opts) x)\<rparr>]
                   else [])
                  @ filter (\<lambda>s. \<not> ignored c opts s) subFiles))
      else if file_kept c opts (p @ [x])
        then Inr [(entry_of (p @ [x]) n)\<lparr>relative := Some (stamp (relativePath opts) x)\<rparr>]
        else Inr [])"
  using assms by (simp add: visit_def create_def split: sum.split)

lemma visit_Inr_stat:
  assumes "visit c fs opts p x = Inr r"
  shows "\<exists>st n. stat fs (p @ [x]) = Inr st \<and> lookup fs (p @ [x]) = Some n"
  using assms by (auto simp: visit_def stat_def split: sum.splits option.splits)

lemma read_induct [case_names sub]:
  assumes step: "\<And>opts p.
     (\<And>file st. stat fs (p @ [file]) = Inr st \<Longrightarrow> isDirectory st
        \<Longrightarrow> P (sub_opts opts file) (p @ [file])) \<Longrightarrow> P opts p"
  shows "P opts p"
proof (induction "size_at fs p" arbitrary: opts p rule: less_induct)
  case less
  show ?case
    by (rule step) (rule less, rule size_at_child)
qed

text \<open>Every entry \<^verbatim>\<open>read\<close> returns is the directory itself or lies beneath it.\<close>

lemma read_paths:
  "read c fs opts p = Inr es \<Longrightarrow> e \<in> set es \<Longrightarrow>
     (addParent opts \<and> path e = p) \<or> (\<exists>x q. path e = p @ x # q)"
proof (induction opts p arbitrary: es e rule: read_induct [where fs = fs])
  case (sub opts p)
  from sub.prems(1) obtain par rawFiles rs where
    par: "parent_part fs opts p = Inr par" and
    rs: "list_all2 (\<lambda>x r. visit c fs opts p x = Inr r) (first_pass c opts rawFiles) rs" and
    es: "es = par @ concat rs"
    by (auto simp: read_Inr_iff)
  from sub.prems(2) es consider "e \<in> set par" | r where "r \<in> set rs" "e \<in> set r"
    by auto
  then show ?case
  proof cases
    case 1
    then show ?thesis using par
      by (auto simp: parent_part_def create_def split: if_splits option.splits sum.splits)
  next
    case 2
    from 2(1) rs obtain x where v: "visit c fs opts p x = Inr r"
      by (auto simp: list_all2_conv_all_nth in_set_conv_nth)
    then obtain st n where st: "stat fs (p @ [x]) = Inr st" and n: "lookup fs (p @ [x]) = Some n"
      using visit_Inr_stat by blast
    show ?thesis
    proof (cases "isDirectory st")
      case False
      then show ?thesis using v 2(2) by (auto simp: visit_stat [OF st n] split: if_splits)
    next
      case True
      from v True obtain subFiles where
        sf: "(if recursive opts then read c fs (sub_opts opts x) (p @ [x]) else Inr []) = Inr subFiles"
        and r: "r = (if dir_kept c opts x
                   then [(entry_of (p @ [x]) n)\<lparr>relative := Some (stamp (relativePath opts) x)\<rparr>]
                   else []) @ filter (\<lambda>s. \<not> ignored c opts s) subFiles"
        by (auto simp: visit_stat [OF st n] split: sum.splits)
      from 2(2) r consider "path e = p @ [x]" | "e \<in> set subFiles"
        by (auto split: if_splits)
      then show ?thesis
      proof cases
        case 1
        then show ?thesis by auto
      next
        case 2
        with sf have "read c fs (sub_opts opts x) (p @ [x]) = Inr subFiles"
          by (auto split: if_splits)
        from sub.IH [OF st True this 2] show ?thesis
          by (auto simp: sub_opts_def)
      qed
    qed
  qed
qed

lemma list_all2_memL: "list_all2 P xs ys \<Longrightarrow> x \<in> set xs \<Longrightarrow> \<exists>y\<in>set ys. P x y"
  by (induction rule: list_all2_induct) auto

lemma list_all2_memR: "list_all2 P xs ys \<Longrightarrow> y \<in> set ys \<Longrightarrow> \<exists>x\<in>set xs. P x y"
  by (induction rule: list_all2_induct) auto

lemma visit_in_read:
  assumes "read c fs opts p = Inr es" and "readDir fs p = Inr rawFiles"
    and "x \<in> set (first_pass c opts rawFiles)"
  shows "\<exists>r. visit c fs opts p x = Inr r \<and> set r \<subseteq> set es"
proof -
  from assms(1,2) obtain par rs where
    rs: "list_all2 (\<lambda>x r. visit c fs opts p x = Inr r) (first_pass c opts rawFiles) rs" and
    es: "es = par @ concat rs"
    by (auto simp: read_Inr_iff)
  from list_all2_memL [OF rs assms(3)] obtain r where "r \<in> set rs" "visit c fs opts p x = Inr r"
    by blast
  then show ?thesis using es by auto
qed

lemma read_mem:
  assumes "read c fs opts p = Inr es" and "e \<in> set es"
  shows "(addParent opts \<and> path e = p) \<or>
         (\<exists>rawFiles x r. readDir fs p = Inr rawFiles \<and> x \<in> set (first_pass c opts rawFiles) \<and>
            visit c fs opts p x = Inr r \<and> e \<in> set r)"
proof -
  from assms(1) obtain par rawFiles rs where
    par: "parent_part fs opts p = Inr par" and rd: "readDir fs p = Inr rawFiles" and
    rs: "list_all2 (\<lambda>x r. visit c fs opts p x = Inr r) (first_pass c opts rawFiles) rs" and
    es: "es = par @ concat rs"
    by (auto simp: read_Inr_iff)
  from assms(2) es consider "e \<in> set par" | r where "r \<in> set rs" "e \<in> set r"
    by auto
  then show ?thesis
  proof cases
    case 1
    then show ?thesis using par
      by (auto simp: parent_part_def create_def split: if_splits option.splits sum.splits)
  next
    case 2
    from list_all2_memR [OF rs 2(1)] obtain x where
      "x \<in> set (first_pass c opts rawFiles)" "visit c fs opts p x = Inr r"
      by blast
    then show ?thesis using rd 2(2) by blast
  qed
qed

text \<open>The entries one round appends: the visited child itself, at \<open>p @ [x]\<close>, and for a
  directory the entries of the recursive call that pass the second test, all deeper.\<close>

lemma visit_mem:
  assumes "visit c fs opts p x = Inr r" and "e \<in> set r"
  shows "\<exists>st n. stat fs (p @ [x]) = Inr st \<and> lookup fs (p @ [x]) = Some n \<and>
     ((e = (entry_of (p @ [x]) n)\<lparr>relative := Some (stamp (relativePath opts) x)\<rparr> \<and>
       (if isDirectory st then dir_kept c opts x else file_kept c opts (p @ [x])))
      \<or> (isDirectory st \<and> recursive opts \<and> \<not> ignored c opts e \<and>
          (\<exists>subFiles y q. read c fs (sub_opts opts x) (p @ [x]) = Inr subFiles \<and>
             e \<in> set subFiles \<and> path e = p @ x # y # q)))"
proof -
  from assms(1) obtain st n where st: "stat fs (p @ [x]) = Inr st"
    and n: "lookup fs (p @ [x]) = Some n"
    using visit_Inr_stat by blast
  show ?thesis
  proof (cases "isDirectory st")
    case False
    then show ?thesis using assms st n
      by (auto simp: visit_stat [OF st n] split: if_splits)
  next
    case True
    from assms(1) True obtain subFiles where
      sf: "(if recursive opts then read c fs (sub_opts opts x) (p @ [x]) else Inr []) = Inr subFiles"
      and r: "r = (if dir_kept c opts x
                 then [(entry_of (p @ [x]) n)\<lparr>relative := Some (stamp (relativePath opts) x)\<rparr>]
                 else []) @ filter (\<lambda>s. \<not> ignored c opts s) subFiles"
      by (auto simp: visit_stat [OF st n] split: sum.splits)
    from assms(2) r consider
      "e = (entry_of (p @ [x]) n)\<lparr>relative := Some (stamp (relativePath opts) x)\<rparr>"
        "dir_kept c opts x"
      | "e \<in> set subFiles" "\<not> ignored c opts e"
      by (auto split: if_splits)
    then show ?thesis
    proof cases
      case 1
      then show ?thesis using st n True by auto
    next
      case 2
      from 2(1) sf have rec: "recursive opts"
        and rd: "read c fs (sub_opts opts x) (p @ [x]) = Inr subFiles"
        by (auto split: if_splits)
      from read_paths [OF rd 2(1)] obtain y q where "path e = p @ x # y # q"
        by (auto simp: sub_opts_def)
      then show ?thesis using st n True rec rd 2 by blast
    qed
  qed
qed

lemma included_iff:
  assumes rd: "read c fs opts p = Inr es" and ls: "readDir fs p = Inr rawFiles"
    and x: "x \<in> set (first_pass c opts rawFiles)" and st: "stat fs (p @ [x]) = Inr st"
  shows "(\<exists>e\<in>set es. path e = p @ [x]) \<longleftrightarrow>
         (if isDirectory st then dir_kept c opts x else file_kept c opts (p @ [x]))"
proof
  assume "\<exists>e\<in>set es. path e = p @ [x]"
  then obtain e where e: "e \<in> set es" "path e = p @ [x]" by blast
  from read_mem [OF rd e(1)] e(2) obtain y r where
    v: "visit c fs opts p y = Inr r" and er: "e \<in> set r"
    by auto
  from visit_mem [OF v er] e(2) have "y = x" by auto
  with visit_mem [OF v er] e(2) st
  show "if isDirectory st then dir_kept c opts x else file_kept c opts (p @ [x])"
    by auto
next
  assume k: "if isDirectory st then dir_kept c opts x else file_kept c opts (p @ [x])"
  from visit_in_read [OF rd ls x] obtain r where
    v: "visit c fs opts p x = Inr r" and sub: "set r \<subseteq> set es"
    by blast
  from st obtain n where n: "lookup fs (p @ [x]) = Some n"
    using stat_Inr by blast
  let ?e = "(entry_of (p @ [x]) n)\<lparr>relative := Some (stamp (relativePath opts) x)\<rparr>"
  from v k have "?e \<in> set r"
    by (auto simp: visit_stat [OF st n] split: if_splits sum.splits)
  with sub have "?e \<in> set es" by blast
  moreover have "path ?e = p @ [x]" by simp
  ultimately show "\<exists>e\<in>set es. path e = p @ [x]" by blast
qed

lemma subcall_kept:
  assumes rd: "read c fs opts p = Inr es" and ls: "readDir fs p = Inr rawFiles"
    and x: "x \<in> set (first_pass c opts rawFiles)" and st: "stat fs (p @ [x]) = Inr st"
    and d: "isDirectory st" and rec: "recursive opts"
  shows "\<exists>subFiles. read c fs (sub_opts opts x) (p @ [x]) = Inr subFiles \<and>
           (\<forall>s\<in>set subFiles. (s \<in> set es) = (\<not> ignored c opts s))"
proof -
  from visit_in_read [OF rd ls x] obtain r where
    v: "visit c fs opts p x = Inr r" and sub: "set r \<subseteq> set es"
    by blast
  from st obtain n where n: "lookup fs (p @ [x]) = Some n"
    using stat_Inr by blast
  from v d rec obtain subFiles where
    sf: "read c fs (sub_opts opts x) (p @ [x]) = Inr subFiles"
    and r: "set (filter (\<lambda>s. \<not> ignored c opts s) subFiles) \<subseteq> set r"
    by (auto simp: visit_stat [OF st n] split: sum.splits)
  have "(s \<in> set es) = (\<not> ignored c opts s)" if s: "s \<in> set subFiles" for s
  proof
    assume "\<not> ignored c opts s"
    with s r sub show "s \<in> set es" by auto
  next
    assume ses: "s \<in> set es"
    from read_paths [OF sf s] obtain y q where ps: "path s = p @ x # y # q"
      by (auto simp: sub_opts_def)
    from read_mem [OF rd ses] ps obtain x' r' where
      v': "visit c fs opts p x' = Inr r'" and sr: "s \<in> set r'"
      by auto
    from visit_mem [OF v' sr] ps show "\<not> ignored c opts s"
      by auto
  qed
  with sf show ?thesis by blast
qed

lemmas eval_simps = read.simps read_loop.simps default_opts_def cfm_literals_def readDir_def
  stat_def create_def entry_of_def ignoreReg_of_def fileFilter_of_def stamp_def basename_def
  dirname_def path_str_def disk1_def

lemma read_loop_single:
  "read_loop c fs opts p [x] [] = visit c fs opts p x"
  by (simp add: read_loop_Cons split: sum.split)

text \<open>
  C1.  With an ignore pattern set, the loop of \<^verbatim>\<open>read\<close> (which does the stat and all
  further processing) runs over exactly the listed names the ignore matcher matches:
  every returned entry other than the directory itself lies at or beneath a matching
  name, and every matching name is visited and what its round appends is returned.
\<close>

theorem first_pass_keeps_matches:
  assumes ig: "ignoreReg_of c opts = Some m" and ls: "readDir fs p = Inr rawFiles"
  shows "read c fs opts p =
           (case (if addParent opts
                  then (case create fs p of Inl e \<Rightarrow> Inl e | Inr d \<Rightarrow> Inr [d])
                  else Inr []) of
              Inl e \<Rightarrow> Inl e
            | Inr outFiles \<Rightarrow> read_loop c fs opts p (filter m rawFiles) outFiles)
         \<and> (\<forall>es e. read c fs opts p = Inr es \<and> e \<in> set es \<longrightarrow>
               (addParent opts \<and> path e = p) \<or>
               (\<exists>x q. path e = p @ x # q \<and> x \<in> set rawFiles \<and> m x))
         \<and> (\<forall>es x. read c fs opts p = Inr es \<and> x \<in> set rawFiles \<and> m x \<longrightarrow>
               (\<exists>r. read_loop c fs opts p [x] [] = Inr r \<and> set r \<subseteq> set es))"
proof (intro conjI allI impI)
  have "filter (\<lambda>file. if m file then True else False) rawFiles = filter m rawFiles"
    by (rule filter_cong) auto
  then show "read c fs opts p =
           (case (if addParent opts
                  then (case create fs p of Inl e \<Rightarrow> Inl e | Inr d \<Rightarrow> Inr [d])
                  else Inr []) of
              Inl e \<Rightarrow> Inl e
            | Inr outFiles \<Rightarrow> read_loop c fs opts p (filter m rawFiles) outFiles)"
    using ig ls by (simp add: read.simps split: sum.split)
next
  fix es e
  assume a: "read c fs opts p = Inr es \<and> e \<in> set es"
  have fp: "first_pass c opts rawFiles = filter m rawFiles"
    using ig by (simp add: first_pass_def)
  from a read_mem [of c fs opts p es e] consider "addParent opts \<and> path e = p"
    | x r where "x \<in> set (filter m rawFiles)" "visit c fs opts p x = Inr r" "e \<in> set r"
    using ls fp by auto
  then show "(addParent opts \<and> path e = p) \<or>
             (\<exists>x q. path e = p @ x # q \<and> x \<in> set rawFiles \<and> m x)"
  proof cases
    case 1
    then show ?thesis by simp
  next
    case 2
    from visit_mem [OF 2(2,3)] obtain q where "path e = p @ x # q" by auto
    with 2(1) show ?thesis by auto
  qed
next
  fix es x
  assume a: "read c fs opts p = Inr es \<and> x \<in> set rawFiles \<and> m x"
  have "x \<in> set (first_pass c opts rawFiles)"
    using ig a by (simp add: first_pass_def)
  from visit_in_read [OF _ ls this] a
  show "\<exists>r. read_loop c fs opts p [x] [] = Inr r \<and> set r \<subseteq> set es"
    by (simp add: read_loop_single)
qed

theorem first_pass_keeps_matches_witness:
  "ignoreReg_of cfm_literals (default_opts\<lparr>ignore := Some [''a.txt'']\<rparr>) = Some (\<lambda>s. s \<in> set [''a.txt''])
   \<and> readDir disk1 [''root''] = Inr [''a.txt'', ''sub'']
   \<and> read cfm_literals disk1 (default_opts\<lparr>ignore := Some [''a.txt'']\<rparr>) [''root'']
       = read_loop cfm_literals disk1 (default_opts\<lparr>ignore := Some [''a.txt'']\<rparr>) [''root'']
           [''a.txt''] []
   \<and> map path (projr (read cfm_literals disk1 (default_opts\<lparr>ignore := Some [''a.txt'']\<rparr>) [''root'']))
       = [[''root'', ''a.txt'']]"
proof -
  have h1: "ignoreReg_of cfm_literals (default_opts\<lparr>ignore := Some [''a.txt'']\<rparr>)
              = Some (\<lambda>s. s \<in> set [''a.txt''])"
    by (simp add: ignoreReg_of_def cfm_literals_def default_opts_def)
  have h2: "readDir disk1 [''root''] = Inr [''a.txt'', ''sub'']"
    by (simp add: readDir_def disk1_def)
  have h3: "map path (projr (read cfm_literals disk1 (default_opts\<lparr>ignore := Some [''a.txt'']\<rparr>) [''root'']))
       = [[''root'', ''a.txt'']]"
    by (simp add: eval_simps)
  from first_pass_keeps_matches [OF h1 h2] h1 h2 h3 show ?thesis
    by (simp add: default_opts_def)
qed

text \<open>
  C3 (amended).  A listed sub-directory that passed the first test is in the output
  exactly when \<^verbatim>\<open>skipDirs\<close> is not set and no filter is set or the filter accepts its
  relative path.  When \<^verbatim>\<open>recursive\<close> is set it is traversed whatever \<^verbatim>\<open>skipDirs\<close> and the
  filter say: the recursive call is made and each of its entries that the second ignore
  test lets through is in the output.
\<close>

theorem subdir_included_and_traversed:
  assumes "read c fs opts p = Inr es" and "readDir fs p = Inr rawFiles"
    and "x \<in> set (case ignoreReg_of c opts of None \<Rightarrow> rawFiles | Some m \<Rightarrow> filter m rawFiles)"
    and "stat fs (p @ [x]) = Inr st" and "isDirectory st"
  shows "((\<exists>e\<in>set es. path e = p @ [x]) \<longleftrightarrow>
            \<not> skipDirs opts \<and>
            (case fileFilter_of c opts of None \<Rightarrow> True
             | Some f \<Rightarrow> f (stamp (relativePath opts) x)))
         \<and> (recursive opts \<longrightarrow>
              (\<exists>subFiles.
                 read c fs (opts\<lparr>relativePath := stamp (relativePath opts) x,
                                 filter_opt := filter_opt opts, addParent := False\<rparr>) (p @ [x])
                   = Inr subFiles \<and>
                 (\<forall>s\<in>set subFiles.
                    \<not> (case ignoreReg_of c opts of None \<Rightarrow> False
                       | Some m \<Rightarrow> m (path_str (path s))) \<longrightarrow> s \<in> set es)))"
proof -
  have x: "x \<in> set (first_pass c opts rawFiles)"
    using assms(3) by (simp add: first_pass_def)
  have "(\<exists>e\<in>set es. path e = p @ [x]) \<longleftrightarrow> dir_kept c opts x"
    using included_iff [OF assms(1,2) x assms(4)] assms(5) by simp
  moreover have "recursive opts \<Longrightarrow>
      \<exists>subFiles. read c fs (sub_opts opts x) (p @ [x]) = Inr subFiles \<and>
           (\<forall>s\<in>set subFiles. (s \<in> set es) = (\<not> ignored c opts s))"
    by (rule subcall_kept [OF assms(1,2) x assms(4,5)])
  ultimately show ?thesis
    unfolding dir_kept_def sub_opts_def ignored_def by blast
qed

theorem subdir_included_and_traversed_witness:
  "map path (projr (read cfm_literals disk1 (default_opts\<lparr>recursive := True, skipDirs := True\<rparr>) [''root'']))
     = [[''root'', ''a.txt''], [''root'', ''sub'', ''b.txt''], [''root'', ''sub'', ''c.txt'']]
   \<and> stat disk1 [''root'', ''sub''] = Inr (Stats True 493)
   \<and> [''root'', ''sub''] \<notin> path ` set (projr (read cfm_literals disk1
        (default_opts\<lparr>recursive := True, skipDirs := True\<rparr>) [''root'']))"
proof -
  let ?opts = "default_opts\<lparr>recursive := True, skipDirs := True\<rparr> :: string list read_opts"
  let ?es = "projr (read cfm_literals disk1 ?opts [''root''])"
  have h0: "map path ?es
     = [[''root'', ''a.txt''], [''root'', ''sub'', ''b.txt''], [''root'', ''sub'', ''c.txt'']]"
    by (simp add: eval_simps)
  have h1: "read cfm_literals disk1 ?opts [''root''] = Inr ?es"
    by (simp add: eval_simps)
  have h2: "readDir disk1 [''root''] = Inr [''a.txt'', ''sub'']"
    by (simp add: readDir_def disk1_def)
  have h3: "''sub'' \<in> set (case ignoreReg_of cfm_literals ?opts of None \<Rightarrow> [''a.txt'', ''sub'']
                              | Some m \<Rightarrow> filter m [''a.txt'', ''sub''])"
    by (simp add: ignoreReg_of_def default_opts_def)
  have h4: "stat disk1 ([''root''] @ [''sub'']) = Inr (Stats True 493)"
    by (simp add: stat_def disk1_def)
  have h5: "isDirectory (Stats True 493)" by simp
  from subdir_included_and_traversed [OF h1 h2 h3 h4 h5]
  have "\<not> (\<exists>e\<in>set ?es. path e = [''root''] @ [''sub''])"
    by (simp add: default_opts_def)
  then have "[''root'', ''sub''] \<notin> path ` set ?es" by auto
  with h0 h4 show ?thesis by simp
qed

text \<open>C3 as first stated (included unless \<^verbatim>\<open>skipDirs\<close> is set and the filter test
  fails) does not hold.  With \<^verbatim>\<open>skipDirs\<close> set and no filter, so that no filter test can
  fail, the listed directory \<^verbatim>\<open>/root/sub\<close> is left out; and with \<^verbatim>\<open>skipDirs\<close> not set and
  a filter that rejects \<^verbatim>\<open>sub\<close> it is left out as well.\<close>

theorem subdir_skipDirs_counterexample:
  "read cfm_literals disk1 (default_opts\<lparr>skipDirs := True\<rparr>) [''root'']
     = Inr [\<lparr>path = [''root'', ''a.txt''], name = ''a.txt'', dir = [''root''], isFile = True,
             isDir = False, mode = 420, relative = Some ''a.txt'', fileExists = None,
             fileOverwritten = None\<rparr>]
   \<and> readDir disk1 [''root''] = Inr [''a.txt'', ''sub'']
   \<and> stat disk1 [''root'', ''sub''] = Inr (Stats True 493)
   \<and> skipDirs (default_opts\<lparr>skipDirs := True\<rparr> :: string list read_opts)
   \<and> fileFilter_of cfm_literals (default_opts\<lparr>skipDirs := True\<rparr>) = None
   \<and> read cfm_literals disk1 (default_opts\<lparr>filter_opt := Some [''/root/a.txt'']\<rparr>) [''root'']
     = Inr [\<lparr>path = [''root'', ''a.txt''], name = ''a.txt'', dir = [''root''], isFile = True,
             isDir = False, mode = 420, relative = Some ''a.txt'', fileExists = None,
             fileOverwritten = None\<rparr>]
   \<and> \<not> skipDirs (default_opts\<lparr>filter_opt := Some [''/root/a.txt'']\<rparr> :: string list read_opts)"
  by (simp add: eval_simps)

text \<open>
  C6 (amended).  With a filter set, the filter matcher is applied to the relative path
  of a directory candidate and to the full path of a file candidate (the joined absolute
  path, before any relative path is stamped on the file): a listed name that passed the
  first test is in the output exactly when its kind is not skipped and the matcher
  accepts that string.
\<close>

theorem filter_subject:
  assumes "read c fs opts p = Inr es" and "readDir fs p = Inr rawFiles"
    and "x \<in> set (case ignoreReg_of c opts of None \<Rightarrow> rawFiles | Some m \<Rightarrow> filter m rawFiles)"
    and "stat fs (p @ [x]) = Inr st" and "fileFilter_of c opts = Some f"
  shows "((\<exists>e\<in>set es. path e = p @ [x]) \<longleftrightarrow>
            (if isDirectory st then \<not> skipDirs opts \<and> f (stamp (relativePath opts) x)
             else \<not> skipFiles opts \<and> f (path_str (p @ [x]))))
         \<and> (\<forall>e\<in>set es. path e = p @ [x] \<longrightarrow> relative e = Some (stamp (relativePath opts) x))"
proof -
  have x: "x \<in> set (first_pass c opts rawFiles)"
    using assms(3) by (simp add: first_pass_def)
  have "(\<exists>e\<in>set es. path e = p @ [x]) \<longleftrightarrow>
          (if isDirectory st then \<not> skipDirs opts \<and> f (stamp (relativePath opts) x)
           else \<not> skipFiles opts \<and> f (path_str (p @ [x])))"
    using included_iff [OF assms(1,2) x assms(4)] assms(5)
    by (simp add: dir_kept_def file_kept_def)
  moreover have "relative e = Some (stamp (relativePath opts) x)"
    if e: "e \<in> set es" "path e = p @ [x]" for e
  proof -
    from read_mem [OF assms(1) e(1)] e(2) obtain y r where
      v: "visit c fs opts p y = Inr r" and er: "e \<in> set r"
      by auto
    from visit_mem [OF v er] e(2) have "y = x" by auto
    with visit_mem [OF v er] e(2) show ?thesis by auto
  qed
  ultimately show ?thesis by blast
qed

theorem filter_subject_witness:
  "map path (projr (read cfm_literals disk1
       (default_opts\<lparr>filter_opt := Some [''/root/a.txt'', ''sub'']\<rparr>) [''root'']))
     = [[''root'', ''a.txt''], [''root'', ''sub'']]
   \<and> (\<exists>e\<in>set (projr (read cfm_literals disk1
       (default_opts\<lparr>filter_opt := Some [''/root/a.txt'', ''sub'']\<rparr>) [''root''])).
         path e = [''root'', ''sub''])
   \<and> stamp [] ''sub'' = ''sub''"
proof -
  let ?opts = "default_opts\<lparr>filter_opt := Some [''/root/a.txt'', ''sub'']\<rparr> :: string list read_opts"
  let ?es = "projr (read cfm_literals disk1 ?opts [''root''])"
  have h0: "map path ?es = [[''root'', ''a.txt''], [''root'', ''sub'']]"
    by (simp add: eval_simps)
  have h1: "read cfm_literals disk1 ?opts [''root''] = Inr ?es"
    by (simp add: eval_simps)
  have h2: "readDir disk1 [''root''] = Inr [''a.txt'', ''sub'']"
    by (simp add: readDir_def disk1_def)
  have h3: "''sub'' \<in> set (case ignoreReg_of cfm_literals ?opts of None \<Rightarrow> [''a.txt'', ''sub'']
                              | Some m \<Rightarrow> filter m [''a.txt'', ''sub''])"
    by (simp add: ignoreReg_of_def default_opts_def)
  have h4: "stat disk1 ([''root''] @ [''sub'']) = Inr (Stats True 493)"
    by (simp add: stat_def disk1_def)
  have h5: "fileFilter_of cfm_literals ?opts = Some (\<lambda>s. s \<in> set [''/root/a.txt'', ''sub''])"
    by (simp add: fileFilter_of_def cfm_literals_def default_opts_def)
  from filter_subject [OF h1 h2 h3 h4 h5]
  have "\<exists>e\<in>set ?es. path e = [''root''] @ [''sub'']"
    by (simp add: default_opts_def stamp_def)
  with h0 show ?thesis by (simp add: stamp_def)
qed

text \<open>C6 as first stated (the test is on the relative path for files too) does
  not hold: the filter \<^verbatim>\<open>a.txt\<close> accepts the relative path of \<^verbatim>\<open>/root/a.txt\<close> and the file
  is left out, and the filter \<^verbatim>\<open>/root/a.txt\<close> does not accept that relative path and the
  file is returned, with the relative path \<^verbatim>\<open>a.txt\<close>.\<close>

theorem filter_relative_counterexample:
  "read cfm_literals disk1 (default_opts\<lparr>filter_opt := Some [''a.txt'']\<rparr>) [''root''] = Inr []
   \<and> the (fileFilter_of cfm_literals (default_opts\<lparr>filter_opt := Some [''a.txt'']\<rparr>)) ''a.txt''
   \<and> read cfm_literals disk1 (default_opts\<lparr>filter_opt := Some [''/root/a.txt'']\<rparr>) [''root'']
     = Inr [\<lparr>path = [''root'', ''a.txt''], name = ''a.txt'', dir = [''root''], isFile = True,
             isDir = False, mode = 420, relative = Some ''a.txt'', fileExists = None,
             fileOverwritten = None\<rparr>]
   \<and> \<not> the (fileFilter_of cfm_literals (default_opts\<lparr>filter_opt := Some [''/root/a.txt'']\<rparr>)) ''a.txt''"
  by (simp add: eval_simps)

text \<open>
  C9.  In a recursive read with an ignore pattern set, an entry returned by the
  recursive call on a visited sub-directory is in the aggregated output exactly when the
  ignore matcher does not match its full path: a match excludes it, the opposite of the
  first test on the raw names, which the sub-directory itself passed by matching.
\<close>

theorem second_pass_drops_matches:
  assumes "read c fs opts p = Inr es" and "recursive opts"
    and "ignoreReg_of c opts = Some m" and "readDir fs p = Inr rawFiles"
    and "x \<in> set rawFiles" and "m x"
    and "stat fs (p @ [x]) = Inr st" and "isDirectory st"
  shows "\<exists>subFiles.
           read c fs (opts\<lparr>relativePath := stamp (relativePath opts) x,
                           filter_opt := filter_opt opts, addParent := False\<rparr>) (p @ [x])
             = Inr subFiles \<and>
           (\<forall>s\<in>set subFiles. (s \<in> set es) = (\<not> m (path_str (path s))))"
proof -
  have x: "x \<in> set (first_pass c opts rawFiles)"
    using assms(3,5,6) by (simp add: first_pass_def)
  from subcall_kept [OF assms(1,4) x assms(7,8,2)] assms(3)
  show ?thesis by (simp add: sub_opts_def ignored_def)
qed

theorem second_pass_drops_matches_witness:
  "map path (projr (read cfm_literals disk1
       (default_opts\<lparr>recursive := True,
                      ignore := Some [''sub'', ''b.txt'', ''c.txt'', ''/root/sub/b.txt'']\<rparr>)
       [''root'']))
     = [[''root'', ''sub''], [''root'', ''sub'', ''c.txt'']]
   \<and> map path (projr (read cfm_literals disk1
       (default_opts\<lparr>recursive := True, relativePath := ''sub'',
                      ignore := Some [''sub'', ''b.txt'', ''c.txt'', ''/root/sub/b.txt'']\<rparr>)
       [''root'', ''sub'']))
     = [[''root'', ''sub'', ''b.txt''], [''root'', ''sub'', ''c.txt'']]"
proof -
  let ?opts = "default_opts\<lparr>recursive := True,
       ignore := Some [''sub'', ''b.txt'', ''c.txt'', ''/root/sub/b.txt'']\<rparr> :: string list read_opts"
  let ?m = "\<lambda>s. s \<in> set [''sub'', ''b.txt'', ''c.txt'', ''/root/sub/b.txt'']"
  let ?es = "projr (read cfm_literals disk1 ?opts [''root''])"
  have h0: "map path ?es = [[''root'', ''sub''], [''root'', ''sub'', ''c.txt'']]"
    by (simp add: eval_simps)
  have h1: "read cfm_literals disk1 ?opts [''root''] = Inr ?es"
    by (simp add: eval_simps)
  have h2: "recursive ?opts" by (simp add: default_opts_def)
  have h3: "ignoreReg_of cfm_literals ?opts = Some ?m"
    by (simp add: ignoreReg_of_def cfm_literals_def default_opts_def)
  have h4: "readDir disk1 [''root''] = Inr [''a.txt'', ''sub'']"
    by (simp add: readDir_def disk1_def)
  have h5: "''sub'' \<in> set [''a.txt'', ''sub'']" by simp
  have h6: "?m ''sub''" by simp
  have h7: "stat disk1 ([''root''] @ [''sub'']) = Inr (Stats True 493)"
    by (simp add: stat_def disk1_def)
  have h8: "isDirectory (Stats True 493)" by simp
  have h9: "map path (projr (read cfm_literals disk1
       (default_opts\<lparr>recursive := True, relativePath := ''sub'',
                      ignore := Some [''sub'', ''b.txt'', ''c.txt'', ''/root/sub/b.txt'']\<rparr>)
       [''root'', ''sub'']))
     = [[''root'', ''sub'', ''b.txt''], [''root'', ''sub'', ''c.txt'']]"
    by (simp add: eval_simps)
  from second_pass_drops_matches [OF h1 h2 h3 h4 h5 h6 h7 h8] h0 h9
  show ?thesis by simp
qed

subsection \<open>The recursive read of a whole tree\<close>

text \<open>The entries of the tree beneath a node at \<open>p\<close>, with the relative prefix \<open>rp\<close>.\<close>

fun tree_entries :: "path \<Rightarrow> string \<Rightarrow> node \<Rightarrow> entry list" where
  "tree_entries p rp (File c m) = []"
| "tree_entries p rp (Dir m ks) =
     concat (map (\<lambda>xk. (entry_of (p @ [fst xk]) (snd xk))\<lparr>relative := Some (stamp rp (fst xk))\<rparr>
                        # tree_entries (p @ [fst xk]) (stamp rp (fst xk)) (snd xk)) ks)"

lemma map_of_distinct: "distinct (map fst ks) \<Longrightarrow> (x, k) \<in> set ks \<Longrightarrow> map_of ks x = Some k"
  by simp

lemma stat_lookup:
  "lookup fs q = Some n \<Longrightarrow>
     \<exists>st. stat fs q = Inr st \<and> isDirectory st = isDir (entry_of q n)"
  by (auto simp: stat_def entry_of_def split: node.splits)

lemma read_tree:
  assumes o: "recursive opts" "\<not> skipFiles opts" "\<not> skipDirs opts" "\<not> addParent opts"
    "fileFilter_of c opts = None" "ignoreReg_of c opts = None"
    and n: "lookup fs p = Some (Dir m ks)" "wf_node (Dir m ks)"
  shows "read c fs opts p = Inr (tree_entries p (relativePath opts) (Dir m ks))"
  using assms
proof (induction "Dir m ks" arbitrary: p opts m ks)
  case (Dir m ks)
  note prems = Dir.prems and IH = Dir.hyps
  let ?rp = "relativePath opts"
  let ?g = "\<lambda>xk. (entry_of (p @ [fst xk]) (snd xk))\<lparr>relative := Some (stamp ?rp (fst xk))\<rparr>
                 # tree_entries (p @ [fst xk]) (stamp ?rp (fst xk)) (snd xk)"
  have par: "parent_part fs opts p = Inr []"
    using prems by (simp add: parent_part_def)
  have ls: "readDir fs p = Inr (map fst ks)"
    using prems by (simp add: readDir_def)
  have fp: "first_pass c opts (map fst ks) = map fst ks"
    using prems by (simp add: first_pass_def)
  have one: "visit c fs opts p (fst xk) = Inr (?g xk)" if xk: "xk \<in> set ks" for xk
  proof -
    obtain x k where [simp]: "xk = (x, k)" by (cases xk)
    from xk prems have mo: "map_of ks x = Some k" by simp
    with prems have lk: "lookup fs (p @ [x]) = Some k"
      by (simp add: lookup_append)
    from stat_lookup [OF lk] obtain st where
      st: "stat fs (p @ [x]) = Inr st" and sd: "isDirectory st = isDir (entry_of (p @ [x]) k)"
      by blast
    have wfk: "wf_node k" using xk prems by auto
    have dk: "dir_kept c opts x" and fk: "file_kept c opts (p @ [x])"
      and ig: "\<And>s. \<not> ignored c opts s"
      using prems by (simp_all add: dir_kept_def file_kept_def ignored_def)
    show ?thesis
    proof (cases k)
      case (File cc mm)
      then have "\<not> isDirectory st" using sd by (simp add: entry_of_def)
      then show ?thesis using File fk by (simp add: visit_stat [OF st lk])
    next
      case (Dir mm kk)
      then have d: "isDirectory st" using sd by (simp add: entry_of_def)
      have so: "recursive (sub_opts opts x)" "\<not> skipFiles (sub_opts opts x)"
        "\<not> skipDirs (sub_opts opts x)" "\<not> addParent (sub_opts opts x)"
        "fileFilter_of c (sub_opts opts x) = None" "ignoreReg_of c (sub_opts opts x) = None"
        "relativePath (sub_opts opts x) = stamp ?rp x"
        using prems(1-6) by (simp_all add: sub_opts_def fileFilter_of_def ignoreReg_of_def)
      have k_in: "Dir mm kk \<in> Basic_BNFs.snds xk" using Dir by simp
      have "read c fs (sub_opts opts x) (p @ [x])
              = Inr (tree_entries (p @ [x]) (relativePath (sub_opts opts x)) (Dir mm kk))"
        using IH [OF xk k_in so(1-6)] lk wfk Dir by simp
      then show ?thesis using d dk ig Dir prems(1) so(7)
        by (simp add: visit_stat [OF st lk])
    qed
  qed
  have "list_all2 (\<lambda>x r. visit c fs opts p x = Inr r) (map fst ks) (map ?g ks)"
    using one by (simp add: list_all2_map1 list_all2_map2 list_all2_same)
  then have "read c fs opts p = Inr ([] @ concat (map ?g ks))"
    unfolding read_Inr_iff using par ls fp by auto
  then show ?case by simp
qed

lemma rel_paths_nonempty: "[] \<notin> set (rel_paths n)"
  by (cases n) auto

lemma stamp_join:
  "x \<noteq> [] \<Longrightarrow> q \<noteq> [] \<Longrightarrow> stamp (stamp rp x) (join_slash q) = stamp rp (join_slash (x # q))"
  by (cases q) (auto simp: stamp_def)

lemma tree_entries_eq:
  "wf_node n \<Longrightarrow>
     tree_entries p rp n =
       map (\<lambda>q. (entry_of (p @ q) (the (lookup n q)))\<lparr>relative := Some (stamp rp (join_slash q))\<rparr>)
         (rel_paths n)"
proof (induction n arbitrary: p rp)
  case (File c m)
  show ?case by simp
next
  case (Dir m ks)
  let ?F = "\<lambda>q. (entry_of (p @ q) (the (lookup (Dir m ks) q)))
                  \<lparr>relative := Some (stamp rp (join_slash q))\<rparr>"
  have "(entry_of (p @ [fst xk]) (snd xk))\<lparr>relative := Some (stamp rp (fst xk))\<rparr>
          # tree_entries (p @ [fst xk]) (stamp rp (fst xk)) (snd xk)
        = map ?F ([fst xk] # map ((#) (fst xk)) (rel_paths (snd xk)))"
    if xk: "xk \<in> set ks" for xk
  proof -
    obtain x k where [simp]: "xk = (x, k)" by (cases xk)
    from xk Dir.prems have mo: "map_of ks x = Some k" and wfk: "wf_node k" and x: "x \<noteq> []"
      by auto
    have k_in: "k \<in> Basic_BNFs.snds xk" by simp
    have tl: "tree_entries (p @ [x]) (stamp rp x) k
        = map (\<lambda>q. (entry_of ((p @ [x]) @ q) (the (lookup k q)))
                    \<lparr>relative := Some (stamp (stamp rp x) (join_slash q))\<rparr>) (rel_paths k)"
      by (rule Dir.IH [OF xk k_in wfk])
    have "\<And>q. q \<in> set (rel_paths k) \<Longrightarrow> q \<noteq> []"
      using rel_paths_nonempty [of k] by auto
    then show ?thesis
      using mo x by (simp add: tl stamp_join)
  qed
  then show ?case
    by (simp add: map_concat cong: map_cong del: list.map)
qed

lemma heads_concat:
  "q \<in> set (concat (map (\<lambda>xk. [fst xk] # map ((#) (fst xk)) (R xk)) ks))
     \<longleftrightarrow> (\<exists>xk\<in>set ks. q = [fst xk] \<or> (\<exists>q'\<in>set (R xk). q = fst xk # q'))"
  by auto

lemma distinct_concat_heads:
  assumes "distinct (map fst ks)" and "\<forall>xk\<in>set ks. distinct (R xk) \<and> [] \<notin> set (R xk)"
  shows "distinct (concat (map (\<lambda>xk. [fst xk] # map ((#) (fst xk)) (R xk)) ks))"
  using assms
proof (induction ks)
  case Nil
  show ?case by simp
next
  case (Cons a ks)
  have d1: "distinct ([fst a] # map ((#) (fst a)) (R a))"
    using Cons.prems by (auto simp: distinct_map)
  have d2: "distinct (concat (map (\<lambda>xk. [fst xk] # map ((#) (fst xk)) (R xk)) ks))"
    using Cons by simp
  have d3: "set ([fst a] # map ((#) (fst a)) (R a))
      \<inter> set (concat (map (\<lambda>xk. [fst xk] # map ((#) (fst xk)) (R xk)) ks)) = {}"
  proof -
    have "fst a \<notin> fst ` set ks" using Cons.prems by simp
    then show ?thesis by force
  qed
  show ?case using d1 d2 d3 by simp
qed

lemma rel_paths_distinct: "wf_node n \<Longrightarrow> distinct (rel_paths n)"
proof (induction n)
  case (File c m)
  show ?case by simp
next
  case (Dir m ks)
  have "\<forall>xk\<in>set ks. distinct (rel_paths (snd xk)) \<and> [] \<notin> set (rel_paths (snd xk))"
  proof
    fix xk assume xk: "xk \<in> set ks"
    have "snd xk \<in> Basic_BNFs.snds xk" by (cases xk) simp
    from Dir.IH [OF xk this] xk Dir.prems rel_paths_nonempty
    show "distinct (rel_paths (snd xk)) \<and> [] \<notin> set (rel_paths (snd xk))" by auto
  qed
  with Dir.prems show ?case
    by (simp add: distinct_concat_heads [where R = "\<lambda>xk. rel_paths (snd xk)"])
qed

lemma rel_paths_set: "wf_node n \<Longrightarrow> set (rel_paths n) = {q. q \<noteq> [] \<and> lookup n q \<noteq> None}"
proof (induction n)
  case (File c m)
  show ?case by (auto simp: neq_Nil_conv)
next
  case (Dir m ks)
  have IH: "set (rel_paths k) = {q. q \<noteq> [] \<and> lookup k q \<noteq> None}" if "(x, k) \<in> set ks" for x k
  proof -
    have "k \<in> Basic_BNFs.snds (x, k)" by simp
    from Dir.IH [OF that this] that Dir.prems show ?thesis by auto
  qed
  have mo: "map_of ks x = Some k \<longleftrightarrow> (x, k) \<in> set ks" for x k
    using Dir.prems by simp
  show ?case
  proof (intro set_eqI iffI)
    fix q assume "q \<in> set (rel_paths (Dir m ks))"
    then have "\<exists>xk\<in>set ks. q = [fst xk] \<or> (\<exists>q'\<in>set (rel_paths (snd xk)). q = fst xk # q')"
      unfolding rel_paths.simps heads_concat [where R = "\<lambda>xk. rel_paths (snd xk)"] .
    then obtain x k where xk: "(x, k) \<in> set ks"
      and q: "q = [x] \<or> (\<exists>q'\<in>set (rel_paths k). q = x # q')"
      by auto
    from xk have m: "map_of ks x = Some k" by (simp add: mo)
    from q show "q \<in> {q. q \<noteq> [] \<and> lookup (Dir m ks) q \<noteq> None}"
      using m IH [OF xk] by auto
  next
    fix q assume "q \<in> {q. q \<noteq> [] \<and> lookup (Dir m ks) q \<noteq> None}"
    then obtain x q' k where q: "q = x # q'" and m: "map_of ks x = Some k"
      and l: "lookup k q' \<noteq> None"
      by (cases q) (auto split: option.splits)
    from m have xk: "(x, k) \<in> set ks" by (simp add: mo)
    have "q = [x] \<or> (\<exists>q''\<in>set (rel_paths k). q = x # q'')"
      using q l IH [OF xk] by (cases "q' = []") auto
    with xk have "\<exists>xk\<in>set ks. q = [fst xk] \<or> (\<exists>q''\<in>set (rel_paths (snd xk)). q = fst xk # q'')"
      by (intro bexI [of _ "(x, k)"]) simp_all
    then show "q \<in> set (rel_paths (Dir m ks))"
      unfolding rel_paths.simps heads_concat [where R = "\<lambda>xk. rel_paths (snd xk)"] .
  qed
qed

lemma tree_entries_props:
  assumes wf: "wf_node n" and at: "lookup fs p = Some n"
  shows "distinct (map path (tree_entries p [] n))
         \<and> path ` set (tree_entries p [] n) = {p @ q | q. q \<noteq> [] \<and> lookup fs (p @ q) \<noteq> None}
         \<and> (\<forall>e\<in>set (tree_entries p [] n).
               relative e = Some (join_slash (drop (length p) (path e)))
               \<and> (isDir e \<longleftrightarrow> (\<exists>m' ks'. lookup fs (path e) = Some (Dir m' ks')))
               \<and> (isFile e \<longleftrightarrow> (\<exists>c' m'. lookup fs (path e) = Some (File c' m'))))"
proof -
  let ?F = "\<lambda>q. (entry_of (p @ q) (the (lookup n q)))\<lparr>relative := Some (stamp [] (join_slash q))\<rparr>"
  have te: "tree_entries p [] n = map ?F (rel_paths n)"
    by (rule tree_entries_eq [OF wf])
  have paths: "map path (map ?F (rel_paths n)) = map ((@) p) (rel_paths n)"
    by (simp add: comp_def)
  have lk: "lookup fs (p @ q) = lookup n q" for q
    using at by (simp add: lookup_append)
  have "inj_on ((@) p) (set (rel_paths n))"
    by (rule inj_onI) simp
  then have d: "distinct (map path (map ?F (rel_paths n)))"
    unfolding paths using rel_paths_distinct [OF wf] by (simp only: distinct_map simp_thms)
  have s: "path ` set (map ?F (rel_paths n)) = {p @ q | q. q \<noteq> [] \<and> lookup fs (p @ q) \<noteq> None}"
  proof -
    have "path ` set (map ?F (rel_paths n)) = set (map path (map ?F (rel_paths n)))"
      by (simp only: set_map)
    also have "\<dots> = (@) p ` set (rel_paths n)"
      by (simp only: paths set_map)
    also have "\<dots> = {p @ q | q. q \<noteq> [] \<and> lookup fs (p @ q) \<noteq> None}"
      unfolding rel_paths_set [OF wf] lk by blast
    finally show ?thesis .
  qed
  have e: "relative e = Some (join_slash (drop (length p) (path e)))
           \<and> (isDir e \<longleftrightarrow> (\<exists>m' ks'. lookup fs (path e) = Some (Dir m' ks')))
           \<and> (isFile e \<longleftrightarrow> (\<exists>c' m'. lookup fs (path e) = Some (File c' m')))"
    if "e \<in> set (map ?F (rel_paths n))" for e
  proof -
    from that obtain q where q: "q \<in> set (rel_paths n)" and e: "e = ?F q" by auto
    from q obtain k where k: "lookup n q = Some k"
      using rel_paths_set [OF wf] by auto
    show ?thesis
      using k by (cases k) (simp_all add: e lk stamp_def entry_of_def)
  qed
  from d s e show ?thesis unfolding te by blast
qed

text \<open>
  C2.  On a directory tree, with no filter, no ignore pattern and nothing skipped (and
  \<^verbatim>\<open>createFileMatch\<close> giving no matcher for no pattern), \<^verbatim>\<open>read({recursive: true})\<close>
  succeeds and returns every file and every directory beneath the root exactly once;
  the relative field of each entry is its path from the root, components joined by
  \<^verbatim>\<open>/\<close>, and its kind is the kind of the node at its path.
\<close>

theorem read_recursive_complete:
  assumes "lookup fs p = Some (Dir md ks)" and "wf_node (Dir md ks)"
    and "recursive opts" and "\<not> skipFiles opts" and "\<not> skipDirs opts" and "\<not> addParent opts"
    and "relativePath opts = []" and "filter_opt opts = None" and "ignore opts = None"
    and "c None = None"
  shows "\<exists>es. read c fs opts p = Inr es
           \<and> distinct (map path es)
           \<and> path ` set es = {p @ q | q. q \<noteq> [] \<and> lookup fs (p @ q) \<noteq> None}
           \<and> (\<forall>e\<in>set es.
                 relative e = Some (join_slash (drop (length p) (path e)))
                 \<and> (isDir e \<longleftrightarrow> (\<exists>m' ks'. lookup fs (path e) = Some (Dir m' ks')))
                 \<and> (isFile e \<longleftrightarrow> (\<exists>c' m'. lookup fs (path e) = Some (File c' m'))))"
proof -
  have ff: "fileFilter_of c opts = None" and ig: "ignoreReg_of c opts = None"
    using assms(8,9,10) by (simp_all add: fileFilter_of_def ignoreReg_of_def)
  have rd: "read c fs opts p = Inr (tree_entries p [] (Dir md ks))"
    using read_tree [OF assms(3,4,5,6) ff ig assms(1,2)] assms(7) by simp
  show ?thesis
    by (rule exI [of _ "tree_entries p [] (Dir md ks)"])
       (rule conjI [OF rd tree_entries_props [OF assms(2,1)]])
qed

theorem read_recursive_complete_witness:
  "lookup disk1 [''root'']
     = Some (Dir 493 [(''a.txt'', File ''A'' 420),
                      (''sub'', Dir 493 [(''b.txt'', File ''B'' 420), (''c.txt'', File ''C'' 420)])])
   \<and> map (\<lambda>e. (path e, relative e, isDir e))
        (projr (read cfm_literals disk1 (default_opts\<lparr>recursive := True\<rparr>) [''root'']))
     = [([''root'', ''a.txt''], Some ''a.txt'', False),
        ([''root'', ''sub''], Some ''sub'', True),
        ([''root'', ''sub'', ''b.txt''], Some ''sub/b.txt'', False),
        ([''root'', ''sub'', ''c.txt''], Some ''sub/c.txt'', False)]
   \<and> distinct (map path
        (projr (read cfm_literals disk1 (default_opts\<lparr>recursive := True\<rparr>) [''root''])))"
proof -
  let ?opts = "default_opts\<lparr>recursive := True\<rparr> :: string list read_opts"
  let ?ks = "[(''a.txt'', File ''A'' 420),
              (''sub'', Dir 493 [(''b.txt'', File ''B'' 420), (''c.txt'', File ''C'' 420)])]"
  have h1: "lookup disk1 [''root''] = Some (Dir 493 ?ks)"
    by (simp add: disk1_def)
  have h2: "wf_node (Dir 493 ?ks)" by simp
  have h3: "recursive ?opts" "\<not> skipFiles ?opts" "\<not> skipDirs ?opts" "\<not> addParent ?opts"
    "relativePath ?opts = []" "filter_opt ?opts = None" "ignore ?opts = None"
    by (simp_all add: default_opts_def)
  have h4: "cfm_literals None = None" by (simp add: cfm_literals_def)
  have h5: "map (\<lambda>e. (path e, relative e, isDir e))
        (projr (read cfm_literals disk1 ?opts [''root'']))
     = [([''root'', ''a.txt''], Some ''a.txt'', False),
        ([''root'', ''sub''], Some ''sub'', True),
        ([''root'', ''sub'', ''b.txt''], Some ''sub/b.txt'', False),
        ([''root'', ''sub'', ''c.txt''], Some ''sub/c.txt'', False)]"
    by (simp add: eval_simps)
  from read_recursive_complete [where c = cfm_literals, OF h1 h2 h3 h4] obtain es where
    r: "read cfm_literals disk1 ?opts [''root''] = Inr es" and d: "distinct (map path es)"
    by (elim exE conjE)
  from r have "projr (read cfm_literals disk1 ?opts [''root'']) = es"
    by (simp only: sum.sel)
  with d have "distinct (map path (projr (read cfm_literals disk1 ?opts [''root''])))"
    by (simp only:)
  with h1 h5 show ?thesis by (intro conjI)
qed

subsection \<open>\<^verbatim>\<open>watch\<close>\<close>

text \<open>Every entry \<^verbatim>\<open>read\<close> returns names a path that exists on the disk read.\<close>

lemma read_exists:
  "read c fs opts p = Inr es \<Longrightarrow> e \<in> set es \<Longrightarrow> lookup fs (path e) \<noteq> None"
proof (induction opts p arbitrary: es e rule: read_induct [where fs = fs])
  case (sub opts p)
  from sub.prems(1) obtain par where par: "parent_part fs opts p = Inr par"
    by (auto simp: read_Inr_iff)
  from read_mem [OF sub.prems] consider "addParent opts" "path e = p"
    | x r where "visit c fs opts p x = Inr r" "e \<in> set r"
    by blast
  then show ?case
  proof cases
    case 1
    then show ?thesis using par
      by (auto simp: parent_part_def create_def split: option.splits)
  next
    case 2
    from visit_mem [OF 2] obtain st n where st: "stat fs (p @ [x]) = Inr st"
      and n: "lookup fs (p @ [x]) = Some n"
      and alt: "(e = (entry_of (p @ [x]) n)\<lparr>relative := Some (stamp (relativePath opts) x)\<rparr>)
        \<or> (isDirectory st \<and> (\<exists>subFiles. read c fs (sub_opts opts x) (p @ [x]) = Inr subFiles \<and>
              e \<in> set subFiles))"
      by blast
    from alt show ?thesis
    proof
      assume "e = (entry_of (p @ [x]) n)\<lparr>relative := Some (stamp (relativePath opts) x)\<rparr>"
      then show ?thesis using n by simp
    next
      assume "isDirectory st \<and> (\<exists>subFiles. read c fs (sub_opts opts x) (p @ [x]) = Inr subFiles \<and>
              e \<in> set subFiles)"
      then show ?thesis using sub.IH [OF st] by blast
    qed
  qed
qed

lemma read_mem_parent:
  assumes "read c fs opts p = Inr es" and "e \<in> set es"
  shows "(\<exists>m ks. lookup fs p = Some (Dir m ks) \<and> e = entry_of p (Dir m ks)) \<or>
         (\<exists>x r. visit c fs opts p x = Inr r \<and> e \<in> set r)"
proof -
  from assms(1) obtain par rawFiles rs where
    par: "parent_part fs opts p = Inr par" and rd: "readDir fs p = Inr rawFiles" and
    rs: "list_all2 (\<lambda>x r. visit c fs opts p x = Inr r) (first_pass c opts rawFiles) rs" and
    es: "es = par @ concat rs"
    by (auto simp: read_Inr_iff)
  from rd obtain m ks where d: "lookup fs p = Some (Dir m ks)"
    by (auto simp: readDir_def split: option.splits node.splits)
  from assms(2) es consider "e \<in> set par" | r where "r \<in> set rs" "e \<in> set r"
    by auto
  then show ?thesis
  proof cases
    case 1
    then have "e = entry_of p (Dir m ks)" using par d
      by (auto simp: parent_part_def create_def split: if_splits)
    with d show ?thesis by blast
  next
    case 2
    from list_all2_memR [OF rs 2(1)] 2(2) show ?thesis by blast
  qed
qed

text \<open>With \<^verbatim>\<open>skipFiles\<close> set, \<^verbatim>\<open>read\<close> returns directories only.\<close>

lemma read_skipFiles_dirs:
  "skipFiles opts \<Longrightarrow> read c fs opts p = Inr es \<Longrightarrow> e \<in> set es \<Longrightarrow> isDir e"
proof (induction opts p arbitrary: es e rule: read_induct [where fs = fs])
  case (sub opts p)
  from read_mem_parent [OF sub.prems(2,3)] consider
    m ks where "e = entry_of p (Dir m ks)"
    | x r where "visit c fs opts p x = Inr r" "e \<in> set r"
    by blast
  then show ?case
  proof cases
    case 1
    then show ?thesis by (simp add: entry_of_def)
  next
    case 2
    from visit_mem [OF 2] obtain st n where st: "stat fs (p @ [x]) = Inr st"
      and n: "lookup fs (p @ [x]) = Some n"
      and alt: "(e = (entry_of (p @ [x]) n)\<lparr>relative := Some (stamp (relativePath opts) x)\<rparr>
                 \<and> (if isDirectory st then dir_kept c opts x else file_kept c opts (p @ [x])))
        \<or> (isDirectory st \<and> (\<exists>subFiles. read c fs (sub_opts opts x) (p @ [x]) = Inr subFiles \<and>
              e \<in> set subFiles))"
      by blast
    from alt show ?thesis
    proof
      assume a: "e = (entry_of (p @ [x]) n)\<lparr>relative := Some (stamp (relativePath opts) x)\<rparr>
                 \<and> (if isDirectory st then dir_kept c opts x else file_kept c opts (p @ [x]))"
      with sub.prems(1) have "isDirectory st"
        by (auto simp: file_kept_def split: if_splits)
      with stat_Inr [OF st] n a show ?thesis by auto
    next
      assume a: "isDirectory st \<and> (\<exists>subFiles. read c fs (sub_opts opts x) (p @ [x]) = Inr subFiles \<and>
              e \<in> set subFiles)"
      have "skipFiles (sub_opts opts x)" using sub.prems(1) by (simp add: sub_opts_def)
      with a sub.IH [OF st] show ?thesis by blast
    qed
  qed
qed

lemma watch_loop_eq:
  assumes "\<forall>fl\<in>set dirs. lookup fs (path fl) \<noteq> None"
  shows "watch_loop fs ignoreReg dirs watchers =
     Inr (watchers @ map path
            (filter (\<lambda>fl. \<not> (case ignoreReg of None \<Rightarrow> False
                               | Some m \<Rightarrow> m (path_str (path fl)))) dirs))"
  using assms
  by (induction dirs arbitrary: watchers) (auto simp: fs_watch_def)

text \<open>
  C8 (amended).  \<^verbatim>\<open>watch\<close> fails exactly when its read fails.  Otherwise it attaches a
  listener to exactly the enumerated entries whose full path the ignore matcher does not
  match (all of them when \<^verbatim>\<open>opts.ignore\<close> is not set), in order; every enumerated entry is
  a directory; and it returns the whole enumerated list, the root and every
  sub-directory, whether watched or not.
\<close>

theorem watch_attaches_survivors:
  "watch c fs opts_ignore p =
     (case read c fs (default_opts\<lparr>recursive := True, skipFiles := True, addParent := True\<rparr>) p of
        Inl e \<Rightarrow> Inl e
      | Inr dirs \<Rightarrow>
          Inr (map path
                 (filter (\<lambda>fl. \<not> (case (case opts_ignore of None \<Rightarrow> None
                                            | Some pat \<Rightarrow> c (Some pat)) of
                                      None \<Rightarrow> False
                                    | Some m \<Rightarrow> m (path_str (path fl)))) dirs),
               dirs))
   \<and> (\<forall>dirs. read c fs (default_opts\<lparr>recursive := True, skipFiles := True, addParent := True\<rparr>) p
                 = Inr dirs \<longrightarrow> (\<forall>d\<in>set dirs. isDir d))"
proof (intro conjI allI impI ballI)
  let ?opts = "default_opts\<lparr>recursive := True, skipFiles := True, addParent := True\<rparr> :: 'a read_opts"
  show "watch c fs opts_ignore p =
     (case read c fs ?opts p of
        Inl e \<Rightarrow> Inl e
      | Inr dirs \<Rightarrow>
          Inr (map path
                 (filter (\<lambda>fl. \<not> (case (case opts_ignore of None \<Rightarrow> None
                                            | Some pat \<Rightarrow> c (Some pat)) of
                                      None \<Rightarrow> False
                                    | Some m \<Rightarrow> m (path_str (path fl)))) dirs),
               dirs))"
  proof (cases "read c fs ?opts p")
    case (Inl e)
    then show ?thesis by (simp add: watch_def)
  next
    case (Inr dirs)
    have "\<forall>fl\<in>set dirs. lookup fs (path fl) \<noteq> None"
      using read_exists [OF Inr] by blast
    from watch_loop_eq [OF this] Inr show ?thesis
      by (simp add: watch_def)
  qed
next
  fix dirs d
  assume "read c fs (default_opts\<lparr>recursive := True, skipFiles := True, addParent := True\<rparr>) p
            = Inr dirs" and "d \<in> set dirs"
  then show "isDir d"
    by (rule read_skipFiles_dirs [rotated]) (simp add: default_opts_def)
qed

theorem watch_attaches_survivors_witness:
  "watch cfm_literals disk1 (Some [''/root/sub'']) [''root'']
     = Inr ([[''root'']],
            projr (read cfm_literals disk1
               (default_opts\<lparr>recursive := True, skipFiles := True, addParent := True\<rparr>) [''root'']))
   \<and> map path (projr (read cfm_literals disk1
         (default_opts\<lparr>recursive := True, skipFiles := True, addParent := True\<rparr>) [''root'']))
     = [[''root''], [''root'', ''sub'']]"
proof -
  have h: "map path (projr (read cfm_literals disk1
         (default_opts\<lparr>recursive := True, skipFiles := True, addParent := True\<rparr>) [''root'']))
     = [[''root''], [''root'', ''sub'']]"
    by (simp add: eval_simps)
  have r: "read cfm_literals disk1
         (default_opts\<lparr>recursive := True, skipFiles := True, addParent := True\<rparr>) [''root'']
       = Inr (projr (read cfm_literals disk1
         (default_opts\<lparr>recursive := True, skipFiles := True, addParent := True\<rparr>) [''root'']))"
    by (simp add: eval_simps)
  have "watch cfm_literals disk1 (Some [''/root/sub'']) [''root'']
     = Inr ([[''root'']],
            projr (read cfm_literals disk1
               (default_opts\<lparr>recursive := True, skipFiles := True, addParent := True\<rparr>) [''root'']))"
    using watch_attaches_survivors [of cfm_literals disk1 "Some [''/root/sub'']" "[''root'']"]
    by (simp add: eval_simps)
  with h show ?thesis by (intro conjI)
qed

text \<open>C8 as first stated (the list returned is the list of the watched
  directories) does not hold: with the ignore pattern \<^verbatim>\<open>/root/sub\<close> only \<^verbatim>\<open>/root\<close> is
  watched, and the list returned holds \<^verbatim>\<open>/root\<close> and \<^verbatim>\<open>/root/sub\<close>.\<close>

theorem watch_returns_unwatched_counterexample:
  "watch cfm_literals disk1 (Some [''/root/sub'']) [''root'']
     = Inr ([[''root'']],
            [\<lparr>path = [''root''], name = ''root'', dir = [], isFile = False, isDir = True,
              mode = 493, relative = None, fileExists = None, fileOverwritten = None\<rparr>,
             \<lparr>path = [''root'', ''sub''], name = ''sub'', dir = [''root''], isFile = False,
              isDir = True, mode = 493, relative = Some ''sub'', fileExists = None,
              fileOverwritten = None\<rparr>])"
  by (simp add: watch_def fs_watch_def eval_simps)

subsection \<open>The engine's sort under a comparator that answers from its first argument\<close>

text \<open>
  The galloping search first.  When the comparison at an index answers ``the key belongs
  to the right'' exactly below a boundary \<open>f\<close>, the search ends at \<open>f\<close>, from every hint.
\<close>

lemma gallop_offsets_props:
  "gallop_offsets continue maxOfs lastOfs offset = (l, ofs) \<Longrightarrow> lastOfs < offset \<Longrightarrow>
     l < ofs \<and> (l = lastOfs \<or> (continue l \<and> l < maxOfs)) \<and> (maxOfs \<le> ofs \<or> \<not> continue ofs)"
proof (induction continue maxOfs lastOfs offset rule: gallop_offsets.induct)
  case (1 continue maxOfs lastOfs offset)
  show ?case
  proof (cases "offset < maxOfs \<and> continue offset")
    case True
    with "1.prems" have "gallop_offsets continue maxOfs offset (2 * offset + 1) = (l, ofs)"
      by (simp add: gallop_offsets.simps [of continue maxOfs lastOfs offset])
    from "1.IH" [OF True this]
    have "l < ofs \<and> (l = offset \<or> continue l \<and> l < maxOfs) \<and> (maxOfs \<le> ofs \<or> \<not> continue ofs)"
      by simp
    with True show ?thesis by auto
  next
    case False
    with "1.prems" have "l = lastOfs" and "ofs = offset"
      by (simp_all add: gallop_offsets.simps [of continue maxOfs lastOfs offset])
    with False "1.prems" show ?thesis by auto
  qed
qed

lemma gallop_search_boundary:
  "lo \<le> f \<Longrightarrow> f \<le> hi \<Longrightarrow> (\<forall>i. lo \<le> i \<and> i < hi \<longrightarrow> right_of i = (i < f)) \<Longrightarrow>
     gallop_search right_of lo hi = f"
proof (induction right_of lo hi rule: gallop_search.induct)
  case (1 right_of lastOfs offset)
  show ?case
  proof (cases "lastOfs < offset")
    case False
    with "1.prems" show ?thesis by (simp add: gallop_search.simps [of right_of lastOfs offset])
  next
    case True
    define m where "m = lastOfs + (offset - lastOfs) div 2"
    have m: "lastOfs \<le> m" "m < offset" using True by (auto simp: m_def)
    show ?thesis
    proof (cases "right_of m")
      case True
      have "gallop_search right_of (m + 1) offset = f"
      proof (rule "1.IH" (1) [OF \<open>lastOfs < offset\<close> m_def True])
        from "1.prems" m True show "m + 1 \<le> f" by auto
        show "f \<le> offset" by fact
        from "1.prems" (3) m show "\<forall>i. m + 1 \<le> i \<and> i < offset \<longrightarrow> right_of i = (i < f)" by auto
      qed
      with True \<open>lastOfs < offset\<close> show ?thesis
        by (simp add: gallop_search.simps [of right_of lastOfs offset] m_def Let_def)
    next
      case False
      have "gallop_search right_of lastOfs m = f"
      proof (rule "1.IH" (2) [OF \<open>lastOfs < offset\<close> m_def False])
        show "lastOfs \<le> f" by fact
        from "1.prems" m False show "f \<le> m" by auto
        from "1.prems" (3) m show "\<forall>i. lastOfs \<le> i \<and> i < m \<longrightarrow> right_of i = (i < f)" by auto
      qed
      with False \<open>lastOfs < offset\<close> show ?thesis
        by (simp add: gallop_search.simps [of right_of lastOfs offset] m_def Let_def)
    qed
  qed
qed

lemma gallop_boundary:
  assumes hint: "hint < n" and f: "f \<le> n" and r: "\<forall>i<n. right_of i = (i < f)"
  shows "gallop right_of n hint = f"
proof (cases "right_of hint")
  case True
  obtain l ofs where g: "gallop_offsets (\<lambda>ofs. right_of (hint + ofs)) (n - hint) 0 1 = (l, ofs)"
    by (cases "gallop_offsets (\<lambda>ofs. right_of (hint + ofs)) (n - hint) 0 1")
  from gallop_offsets_props [OF g]
  have p: "l < ofs" "l = 0 \<or> (right_of (hint + l) \<and> l < n - hint)"
    "n - hint \<le> ofs \<or> \<not> right_of (hint + ofs)" by auto
  from p (2) True hint have l: "right_of (hint + l)" "hint + l < n" by auto
  with r have lf: "hint + l < f" by auto
  have hi: "f \<le> min ofs (n - hint) + hint"
  proof (cases "n - hint \<le> ofs")
    case True
    with f hint show ?thesis by (simp add: min_def)
  next
    case False
    with p (3) have "\<not> right_of (hint + ofs)" and "hint + ofs < n" by auto
    with r have "f \<le> hint + ofs" by auto
    with False show ?thesis by (simp add: min_def)
  qed
  have "gallop_search right_of (l + hint + 1) (min ofs (n - hint) + hint) = f"
  proof (rule gallop_search_boundary)
    from lf show "l + hint + 1 \<le> f" by simp
    show "f \<le> min ofs (n - hint) + hint" by fact
    have "min ofs (n - hint) + hint \<le> n" using hint by (auto simp: min_def)
    with r show "\<forall>i. l + hint + 1 \<le> i \<and> i < min ofs (n - hint) + hint \<longrightarrow> right_of i = (i < f)"
      by auto
  qed
  with True g show ?thesis by (simp add: gallop_def)
next
  case False
  obtain l ofs where g: "gallop_offsets (\<lambda>ofs. \<not> right_of (hint - ofs)) (hint + 1) 0 1 = (l, ofs)"
    by (cases "gallop_offsets (\<lambda>ofs. \<not> right_of (hint - ofs)) (hint + 1) 0 1")
  from gallop_offsets_props [OF g]
  have p: "l < ofs" "l = 0 \<or> (\<not> right_of (hint - l) \<and> l < hint + 1)"
    "hint + 1 \<le> ofs \<or> \<not> \<not> right_of (hint - ofs)" by auto
  from p (2) False have l: "\<not> right_of (hint - l)" by auto
  with r hint have lf: "f \<le> hint - l" by (auto simp: not_less)
  have lo: "hint + 1 - min ofs (hint + 1) \<le> f"
  proof (cases "hint + 1 \<le> ofs")
    case True
    then show ?thesis by (simp add: min_def)
  next
    case False
    with p (3) have "right_of (hint - ofs)" by auto
    with r hint have "hint - ofs < f" by auto
    with False show ?thesis by (simp add: min_def)
  qed
  have "gallop_search right_of (hint + 1 - min ofs (hint + 1)) (hint - l) = f"
  proof (rule gallop_search_boundary [OF lo lf])
    from r hint show "\<forall>i. hint + 1 - min ofs (hint + 1) \<le> i \<and> i < hint - l \<longrightarrow> right_of i = (i < f)"
      by auto
  qed
  with False g show ?thesis by (simp add: gallop_def)
qed

text \<open>From here on the comparator answers ``less'' exactly when its first argument is
  without \<open>P\<close>, as \<open>isDir_cmp\<close> does with \<open>P\<close> for ``is a directory''.  \<open>files_first\<close>
  says the same as \<open>sorted_wrt\<close> for ``a directory is followed by directories only''.\<close>

lemma files_firstI:
  "\<forall>x\<in>set fs. \<not> P x \<Longrightarrow> \<forall>x\<in>set ds. P x \<Longrightarrow> files_first P (fs @ ds)"
  by (simp add: files_first_def)

lemma files_first_sorted_wrt: "files_first P xs = sorted_wrt (\<lambda>a b. P a \<longrightarrow> P b) xs"
proof (induction xs)
  case Nil
  show ?case by (simp add: files_first_def)
next
  case (Cons x xs)
  show ?case
  proof (cases "P x")
    case True
    have "(x # xs = filter (\<lambda>x. \<not> P x) xs @ x # filter P xs) = (\<forall>y\<in>set xs. P y)"
    proof
      assume e: "x # xs = filter (\<lambda>x. \<not> P x) xs @ x # filter P xs"
      then have "length xs = length (filter (\<lambda>x. \<not> P x) xs) + length (filter P xs)"
        by (metis add_Suc_right length_Cons length_append nat.inject)
      have "filter (\<lambda>x. \<not> P x) xs = []"
      proof (cases "filter (\<lambda>x. \<not> P x) xs")
        case Nil
        then show ?thesis .
      next
        case (Cons y ys)
        with e have "x = y" by simp
        moreover have "y \<in> set (filter (\<lambda>x. \<not> P x) xs)" using Cons by simp
        ultimately show ?thesis using True by simp
      qed
      then show "\<forall>y\<in>set xs. P y" by (simp add: filter_empty_conv)
    next
      assume a: "\<forall>y\<in>set xs. P y"
      then have "filter (\<lambda>x. \<not> P x) xs = []" and "filter P xs = xs"
        by (simp_all add: filter_empty_conv)
      then show "x # xs = filter (\<lambda>x. \<not> P x) xs @ x # filter P xs" by simp
    qed
    moreover have "(\<forall>y\<in>set xs. P y) \<Longrightarrow> sorted_wrt (\<lambda>a b. P a \<longrightarrow> P b) xs"
      by (simp add: sorted_wrt_iff_nth_less)
    ultimately show ?thesis using True by (auto simp: files_first_def)
  next
    case False
    with Cons show ?thesis by (simp add: files_first_def)
  qed
qed

text \<open>Binary insertion puts a pivot without \<open>P\<close> at the front of the run and a pivot
  with \<open>P\<close> at its end.\<close>

lemma binary_search_file:
  "(\<And>a b. (cmp a b < 0) = (\<not> P a)) \<Longrightarrow> \<not> P pivot \<Longrightarrow>
     binary_search cmp pivot xs left right = left"
proof (induction cmp pivot xs left right rule: binary_search.induct)
  case (1 cmp pivot xs left right)
  show ?case
  proof (cases "left < right")
    case True
    from "1.prems" have lt: "cmp pivot (xs ! (left + (right - left) div 2)) < 0" by simp
    from "1.IH" (1) [OF True refl lt "1.prems"] True lt show ?thesis
      by (simp add: binary_search.simps [of cmp pivot xs left right] Let_def)
  next
    case False
    then show ?thesis by (simp add: binary_search.simps [of cmp pivot xs left right])
  qed
qed

lemma binary_search_dir:
  "(\<And>a b. (cmp a b < 0) = (\<not> P a)) \<Longrightarrow> P pivot \<Longrightarrow> left \<le> right \<Longrightarrow>
     binary_search cmp pivot xs left right = right"
proof (induction cmp pivot xs left right rule: binary_search.induct)
  case (1 cmp pivot xs left right)
  show ?case
  proof (cases "left < right")
    case True
    from "1.prems" have ge: "\<not> cmp pivot (xs ! (left + (right - left) div 2)) < 0" by simp
    have "left + (right - left) div 2 + 1 \<le> right" using True by auto
    from "1.IH" (2) [OF True refl ge "1.prems" (1,2) this] True ge show ?thesis
      by (simp add: binary_search.simps [of cmp pivot xs left right] Let_def)
  next
    case False
    with "1.prems" show ?thesis by (subst binary_search.simps) simp
  qed
qed

lemma files_first_Cons_file: "\<not> P x \<Longrightarrow> files_first P xs \<Longrightarrow> files_first P (x # xs)"
  by (simp add: files_first_def)

lemma files_first_snoc_dir: "P x \<Longrightarrow> files_first P xs \<Longrightarrow> files_first P (xs @ [x])"
  by (simp add: files_first_def)

lemma binary_insertion_sort_files_first:
  assumes c: "\<And>a b. (cmp a b < 0) = (\<not> P a)"
  shows "files_first P run \<Longrightarrow>
     files_first P (binary_insertion_sort cmp run xs)
     \<and> mset (binary_insertion_sort cmp run xs) = mset run + mset xs"
proof (induction xs arbitrary: run)
  case Nil
  then show ?case by simp
next
  case (Cons pivot rest)
  show ?case
  proof (cases "P pivot")
    case True
    with c have "binary_search cmp pivot run 0 (length run) = length run"
      by (simp add: binary_search_dir [where P = P])
    moreover have "files_first P (run @ [pivot])"
      using True Cons.prems by (rule files_first_snoc_dir)
    ultimately show ?thesis using Cons.IH [of "run @ [pivot]"] by simp
  next
    case False
    with c have "binary_search cmp pivot run 0 (length run) = 0"
      by (simp add: binary_search_file [where P = P])
    moreover have "files_first P (pivot # run)"
      using False Cons.prems by (rule files_first_Cons_file)
    ultimately show ?thesis using Cons.IH [of "pivot # run"] by simp
  qed
qed

text \<open>The run found at the front of the remaining part: the first element, followed by
  elements with \<open>P\<close> only (ascending), or by elements without \<open>P\<close> only (descending, and
  then reversed, so that the first element comes last).\<close>

lemma run_descending_files:
  "(\<And>a b. (cmp a b < 0) = (\<not> P a)) \<Longrightarrow>
     \<forall>x\<in>set (take (run_descending cmp prev rest) rest). \<not> P x"
  by (induction cmp prev rest rule: run_descending.induct) (auto simp: not_le)

lemma run_ascending_dirs:
  "(\<And>a b. (cmp a b < 0) = (\<not> P a)) \<Longrightarrow>
     \<forall>x\<in>set (take (run_ascending cmp prev rest) rest). P x"
  by (induction cmp prev rest rule: run_ascending.induct) auto

lemma count_and_make_run_files_first:
  assumes c: "\<And>a b. (cmp a b < 0) = (\<not> P a)"
  shows "files_first P (fst (count_and_make_run cmp xs))
     \<and> mset (fst (count_and_make_run cmp xs)) + mset (snd (count_and_make_run cmp xs)) = mset xs
     \<and> (xs \<noteq> [] \<longrightarrow> fst (count_and_make_run cmp xs) \<noteq> [])"
proof (cases "(cmp, xs)" rule: count_and_make_run.cases)
  case (1 cmp')
  then show ?thesis by (simp add: files_first_def)
next
  case (2 cmp' x)
  then show ?thesis by (simp add: files_first_def)
next
  case (3 cmp' elementHigh elementLow rest)
  then have xs: "xs = elementHigh # elementLow # rest" and [simp]: "cmp' = cmp" by simp_all
  have m: "mset (take n xs) + mset (drop n xs) = mset xs" for n
    by (metis append_take_drop_id mset_append)
  show ?thesis
  proof (cases "P elementLow")
    case False
    define k where "k = run_descending cmp elementLow rest"
    have f: "\<forall>x\<in>set (elementLow # take k rest). \<not> P x"
      using run_descending_files [of cmp P elementLow rest] c False by (simp add: k_def)
    have r: "fst (count_and_make_run cmp xs) = rev (elementLow # take k rest) @ [elementHigh]"
      and s: "snd (count_and_make_run cmp xs) = drop k rest"
      using False c by (simp_all add: xs k_def Let_def)
    have "files_first P (rev (elementLow # take k rest) @ [elementHigh])"
    proof (cases "P elementHigh")
      case True
      with f show ?thesis by (intro files_firstI) simp_all
    next
      case False
      with f have "files_first P ((rev (elementLow # take k rest) @ [elementHigh]) @ [])"
        by (intro files_firstI) auto
      then show ?thesis by simp
    qed
    moreover have "mset (rev (elementLow # take k rest) @ [elementHigh]) + mset (drop k rest) = mset xs"
      using m [of k] by (simp add: xs) (metis append_take_drop_id mset_append union_commute)
    ultimately show ?thesis using r s by simp
  next
    case True
    define k where "k = run_ascending cmp elementLow rest"
    have f: "\<forall>x\<in>set (elementLow # take k rest). P x"
      using run_ascending_dirs [of cmp P elementLow rest] c True by (simp add: k_def)
    have r: "fst (count_and_make_run cmp xs) = elementHigh # elementLow # take k rest"
      and s: "snd (count_and_make_run cmp xs) = drop k rest"
      using True c by (simp_all add: xs k_def Let_def)
    have "files_first P (elementHigh # elementLow # take k rest)"
    proof (cases "P elementHigh")
      case True
      with f have "files_first P ([] @ elementHigh # elementLow # take k rest)"
        by (intro files_firstI) auto
      then show ?thesis by simp
    next
      case False
      with f have "files_first P ([elementHigh] @ elementLow # take k rest)"
        by (intro files_firstI) auto
      then show ?thesis by simp
    qed
    moreover have "mset (elementHigh # elementLow # take k rest) + mset (drop k rest) = mset xs"
      by (simp add: xs) (metis append_take_drop_id mset_append)
    ultimately show ?thesis using r s by simp
  qed
qed

text \<open>Galloping: \<^verbatim>\<open>GallopRight\<close> depends on the key alone, \<^verbatim>\<open>GallopLeft\<close> on the run alone.\<close>

lemma gallop_right_file:
  assumes c: "\<And>a b. (cmp a b < 0) = (\<not> P a)" and "\<not> P key" and "hint < length xs"
  shows "gallop_right cmp key xs hint = 0"
  unfolding gallop_right_def using assms by (intro gallop_boundary) simp_all

lemma gallop_right_dir:
  assumes c: "\<And>a b. (cmp a b < 0) = (\<not> P a)" and "P key" and "hint < length xs"
  shows "gallop_right cmp key xs hint = length xs"
  unfolding gallop_right_def using assms by (intro gallop_boundary) simp_all

lemma gallop_left_boundary:
  assumes c: "\<And>a b. (cmp a b < 0) = (\<not> P a)" and "\<forall>x\<in>set fs. \<not> P x" and "\<forall>x\<in>set ds. P x"
    and "hint < length (fs @ ds)"
  shows "gallop_left cmp key (fs @ ds) hint = length fs"
  unfolding gallop_left_def using assms by (intro gallop_boundary) (auto simp: nth_append)

lemma gallop_left_files:
  assumes c: "\<And>a b. (cmp a b < 0) = (\<not> P a)" and "\<forall>x\<in>set fs. \<not> P x" and "hint < length fs"
  shows "gallop_left cmp key fs hint = length fs"
  using gallop_left_boundary [of cmp P fs "[]" hint key] assms by simp

text \<open>Merging a run with a run \<open>bs\<close> of elements without \<open>P\<close>: every comparison is won by
  \<open>bs\<close>, so the result is \<open>bs\<close> followed by the other run, from either side.\<close>

lemma merge_low_loop_files:
  "(\<And>a b. (cmp a b < 0) = (\<not> P a)) \<Longrightarrow> \<forall>x\<in>set bs. \<not> P x \<Longrightarrow>
     fst (merge_low_loop cmp out as bs nofWinsA nofWinsB minGallop) = out @ bs @ as"
  "(\<And>a b. (cmp a b < 0) = (\<not> P a)) \<Longrightarrow> \<forall>x\<in>set bs. \<not> P x \<Longrightarrow>
     fst (merge_low_gallop cmp out as bs minGallop0) = out @ bs @ as"
proof (induction cmp out as bs nofWinsA nofWinsB minGallop and cmp out as bs minGallop0
       rule: merge_low_loop_merge_low_gallop.induct)
  case (1 cmp out as bs nofWinsA nofWinsB minGallop)
  note c = "1.prems" (1)
  show ?case
  proof (cases "length as \<le> 1 \<or> bs = []")
    case True
    then show ?thesis by (subst merge_low_loop.simps) simp
  next
    case False
    then obtain b bs' where bs: "bs = b # bs'" by (cases bs) auto
    then have "\<not> P (hd bs)" and tl: "\<forall>x\<in>set (tl bs). \<not> P x"
      using "1.prems" (2) by simp_all
    with c have lt: "cmp (hd bs) (hd as) < 0" by simp
    have e: "out @ [hd bs] @ tl bs @ as = out @ bs @ as" by (simp add: bs)
    show ?thesis
    proof (cases "tl bs = []")
      case True
      with e have "out @ [hd bs] @ as = out @ bs @ as" by simp
      with False lt True show ?thesis by (subst merge_low_loop.simps) simp
    next
      case nonempty: False
      show ?thesis
      proof (cases "minGallop \<le> nofWinsB + 1")
        case True
        from "1.IH" (1) [OF False lt nonempty True c tl] e
        have "fst (merge_low_gallop cmp (out @ [hd bs]) as (tl bs) (minGallop + 1)) = out @ bs @ as"
          by simp
        with False lt nonempty True show ?thesis by (subst merge_low_loop.simps) simp
      next
        case no: False
        from "1.IH" (2) [OF False lt nonempty no c tl] e
        have "fst (merge_low_loop cmp (out @ [hd bs]) as (tl bs) 0 (nofWinsB + 1) minGallop) = out @ bs @ as"
          by simp
        with False lt nonempty no show ?thesis by (subst merge_low_loop.simps) simp
      qed
    qed
  qed
next
  case (2 cmp out as bs minGallop0)
  note c = "2.prems" (1)
  show ?case
  proof (cases "length as \<le> 1 \<or> bs = []")
    case True
    then show ?thesis by (subst merge_low_gallop.simps) simp
  next
    case False
    then obtain b bs' where bs: "bs = b # bs'" by (cases bs) auto
    from False have as_ne: "0 < length as" by (cases as) simp_all
    from bs have "\<not> P (hd bs)" and tl: "\<forall>x\<in>set (tl bs). \<not> P x"
      using "2.prems" (2) by simp_all
    with c as_ne have a: "gallop_right cmp (hd bs) as 0 = 0"
      by (intro gallop_right_file [where P = P]) simp_all
    have e: "out @ [hd bs] @ tl bs @ as = out @ bs @ as" by (simp add: bs)
    show ?thesis
    proof (cases "tl bs = []")
      case True
      with e have "out @ [hd bs] @ as = out @ bs @ as" by simp
      with False a True show ?thesis by (subst merge_low_gallop.simps) simp
    next
      case nonempty: False
      then have h: "0 < length (tl bs)" by (simp del: length_tl)
      with c tl have b: "gallop_left cmp (hd as) (tl bs) 0 = length (tl bs)"
        by (rule gallop_left_files [where P = P])
      from as_ne have "as \<noteq> []" by simp
      with False a b nonempty e h show ?thesis
        by (subst merge_low_gallop.simps) (simp add: Let_def del: length_tl)
    qed
  qed
qed

lemma merge_low_files:
  assumes c: "\<And>a b. (cmp a b < 0) = (\<not> P a)" and "\<forall>x\<in>set bs. \<not> P x" and "bs \<noteq> []"
  shows "fst (merge_low cmp as bs minGallop) = bs @ as"
proof -
  from \<open>bs \<noteq> []\<close> obtain b bs' where bs: "bs = b # bs'" by (cases bs) auto
  then have tl: "\<forall>x\<in>set (tl bs). \<not> P x"
    using assms (2) by simp
  have "fst (merge_low_loop cmp [hd bs] as (tl bs) 0 0 minGallop) = [hd bs] @ tl bs @ as"
    using c tl by (rule merge_low_loop_files (1))
  then show ?thesis by (simp add: merge_low_def bs)
qed

lemma merge_high_loop_files:
  "(\<And>a b. (cmp a b < 0) = (\<not> P a)) \<Longrightarrow> \<forall>x\<in>set bs. \<not> P x \<Longrightarrow> as \<noteq> [] \<Longrightarrow> 1 < length bs \<Longrightarrow>
     fst (merge_high_loop cmp as bs out nofWinsA nofWinsB minGallop) = bs @ as @ out"
  "(\<And>a b. (cmp a b < 0) = (\<not> P a)) \<Longrightarrow> \<forall>x\<in>set bs. \<not> P x \<Longrightarrow> as \<noteq> [] \<Longrightarrow> 1 < length bs \<Longrightarrow>
     fst (merge_high_gallop cmp as bs out minGallop0) = bs @ as @ out"
proof (induction cmp as bs out nofWinsA nofWinsB minGallop and cmp as bs out minGallop0
       rule: merge_high_loop_merge_high_gallop.induct)
  case (1 cmp as bs out nofWinsA nofWinsB minGallop)
  note c = "1.prems" (1) and files = "1.prems" (2)
  from "1.prems" have g: "\<not> (as = [] \<or> length bs \<le> 1)" by simp
  from "1.prems" have "bs \<noteq> []" by auto
  then have "last bs \<in> set bs" by simp
  with files c have lt: "cmp (last bs) (last as) < 0" by simp
  have "(butlast as @ [last as]) @ out = as @ out"
    using \<open>as \<noteq> []\<close> by simp
  then have as: "butlast as @ last as # out = as @ out" by simp
  show ?case
  proof (cases "butlast as = []")
    case True
    with g lt as show ?thesis by (subst merge_high_loop.simps) simp
  next
    case nonempty: False
    show ?thesis
    proof (cases "minGallop \<le> nofWinsA + 1")
      case True
      from "1.IH" (1) [OF g lt nonempty True c files nonempty "1.prems" (4)] as
      have "fst (merge_high_gallop cmp (butlast as) bs (last as # out) (minGallop + 1)) = bs @ as @ out"
        by simp
      with g lt nonempty True show ?thesis by (subst merge_high_loop.simps) simp
    next
      case no: False
      from "1.IH" (2) [OF g lt nonempty no c files nonempty "1.prems" (4)] as
      have "fst (merge_high_loop cmp (butlast as) bs (last as # out) (nofWinsA + 1) 0 minGallop)
              = bs @ as @ out"
        by simp
      with g lt nonempty no show ?thesis by (subst merge_high_loop.simps) simp
    qed
  qed
next
  case (2 cmp as bs out minGallop0)
  note c = "2.prems" (1) and files = "2.prems" (2)
  from "2.prems" have g: "\<not> (as = [] \<or> length bs \<le> 1)" by simp
  from "2.prems" have "bs \<noteq> []" by auto
  then have "last bs \<in> set bs" by simp
  with files have "\<not> P (last bs)" by simp
  with c \<open>as \<noteq> []\<close> have a: "gallop_right cmp (last bs) as (length as - 1) = 0"
    by (intro gallop_right_file [where P = P]) simp_all
  from g a \<open>as \<noteq> []\<close> show ?case
    by (subst merge_high_gallop.simps) (simp add: Let_def)
qed

lemma merge_high_files:
  assumes c: "\<And>a b. (cmp a b < 0) = (\<not> P a)" and files: "\<forall>x\<in>set bs. \<not> P x" and "bs \<noteq> []"
    and "as \<noteq> []"
  shows "fst (merge_high cmp as bs minGallop) = bs @ as"
proof -
  have as: "butlast as @ [last as] = as" using \<open>as \<noteq> []\<close> by simp
  show ?thesis
  proof (cases "butlast as = [] \<or> length bs = 1")
    case True
    with as show ?thesis by (auto simp: merge_high_def)
  next
    case False
    then have "butlast as \<noteq> []" and "1 < length bs"
      using \<open>bs \<noteq> []\<close> by (simp_all add: Suc_lessI)
    with c files
    have "fst (merge_high_loop cmp (butlast as) bs [last as] 0 0 minGallop) = bs @ butlast as @ [last as]"
      by (intro merge_high_loop_files (1) [where P = P])
    with False as show ?thesis by (simp add: merge_high_def)
  qed
qed

text \<open>Two neighbouring runs, each with its elements without \<open>P\<close> first: the merged run
  is the first run followed by the second when the second starts with \<open>P\<close>; otherwise
  the elements without \<open>P\<close> of the second run, the first run, and the rest of the second.\<close>

lemma merge_runs_files_first:
  assumes c: "\<And>a b. (cmp a b < 0) = (\<not> P a)"
    and A: "files_first P runA" "runA \<noteq> []" and B: "files_first P runB" "runB \<noteq> []"
  shows "fst (merge_runs cmp runA runB minGallop) =
           (if P (hd runB) then runA @ runB
            else filter (\<lambda>x. \<not> P x) runB @ runA @ filter P runB)"
proof (cases "P (hd runB)")
  case True
  with c A have "gallop_right cmp (hd runB) runA 0 = length runA"
    by (intro gallop_right_dir [where P = P]) simp_all
  with True show ?thesis by (simp add: merge_runs_def)
next
  case False
  define fs where "fs = filter (\<lambda>x. \<not> P x) runB"
  define ds where "ds = filter P runB"
  from B have runB: "runB = fs @ ds" by (simp add: files_first_def fs_def ds_def)
  have f: "\<forall>x\<in>set fs. \<not> P x" and d: "\<forall>x\<in>set ds. P x" by (simp_all add: fs_def ds_def)
  have "fs \<noteq> []"
  proof
    assume "fs = []"
    with runB B have "hd runB \<in> set ds" by simp
    with d False show False by simp
  qed
  from c False A have "gallop_right cmp (hd runB) runA 0 = 0"
    by (intro gallop_right_file [where P = P]) simp_all
  then have k: "gallop_right cmp (hd (fs @ ds)) runA 0 = 0" by (simp only: runB)
  from B have "length (fs @ ds) - 1 < length (fs @ ds)" by (simp add: runB)
  with c f d have l: "gallop_left cmp (last runA) (fs @ ds) (length (fs @ ds) - 1) = length fs"
    by (intro gallop_left_boundary [where P = P])
  have low: "fst (merge_low cmp runA fs minGallop) = fs @ runA"
    using c f \<open>fs \<noteq> []\<close> by (rule merge_low_files)
  have high: "fst (merge_high cmp runA fs minGallop) = fs @ runA"
    using c f \<open>fs \<noteq> []\<close> A (2) by (rule merge_high_files)
  have "fst (merge_runs cmp runA (fs @ ds) minGallop) = fs @ runA @ ds"
    using k l low high A (2) \<open>fs \<noteq> []\<close>
    by (simp add: merge_runs_def Let_def case_prod_beta split: if_split)
  with False show ?thesis by (simp add: runB [symmetric]) (simp add: fs_def ds_def)
qed

lemma merge_runs_ok:
  assumes c: "\<And>a b. (cmp a b < 0) = (\<not> P a)"
    and A: "files_first P runA" "runA \<noteq> []" and B: "files_first P runB" "runB \<noteq> []"
  shows "files_first P (fst (merge_runs cmp runA runB minGallop))
     \<and> fst (merge_runs cmp runA runB minGallop) \<noteq> []
     \<and> mset (fst (merge_runs cmp runA runB minGallop)) = mset runA + mset runB"
proof -
  define fa where "fa = filter (\<lambda>x. \<not> P x) runA"
  define da where "da = filter P runA"
  define fb where "fb = filter (\<lambda>x. \<not> P x) runB"
  define db where "db = filter P runB"
  from A have runA: "runA = fa @ da" by (simp add: files_first_def fa_def da_def)
  from B have runB: "runB = fb @ db" by (simp add: files_first_def fb_def db_def)
  have f: "\<forall>x\<in>set fa. \<not> P x" "\<forall>x\<in>set fb. \<not> P x" and d: "\<forall>x\<in>set da. P x" "\<forall>x\<in>set db. P x"
    by (simp_all add: fa_def fb_def da_def db_def)
  show ?thesis
  proof (cases "P (hd runB)")
    case True
    have "fb = []"
    proof (rule ccontr)
      assume "fb \<noteq> []"
      then have "hd runB \<in> set fb" by (simp add: runB)
      with f True show False by simp
    qed
    then have "runA @ runB = fa @ (da @ db)" by (simp add: runA runB)
    moreover have "fst (merge_runs cmp runA runB minGallop) = runA @ runB"
      using merge_runs_files_first [where cmp = cmp and P = P and minGallop = minGallop, OF c A B]
        True by simp
    ultimately have e: "fst (merge_runs cmp runA runB minGallop) = fa @ (da @ db)" by simp
    have "files_first P (fa @ (da @ db))" using f d by (intro files_firstI) auto
    moreover have "mset (fa @ (da @ db)) = mset runA + mset runB"
      using \<open>fb = []\<close> by (simp add: runA runB)
    moreover have "fa @ (da @ db) \<noteq> []" using A (2) by (auto simp: runA)
    ultimately show ?thesis by (simp only: e) simp
  next
    case False
    have "fst (merge_runs cmp runA runB minGallop) = fb @ runA @ db"
      using merge_runs_files_first [where cmp = cmp and P = P and minGallop = minGallop, OF c A B] False by (simp add: fb_def db_def)
    then have e: "fst (merge_runs cmp runA runB minGallop) = (fb @ fa) @ (da @ db)"
      by (simp add: runA)
    have "files_first P ((fb @ fa) @ (da @ db))" using f d by (intro files_firstI) auto
    moreover have "mset ((fb @ fa) @ (da @ db)) = mset runA + mset runB"
      by (simp add: runA runB)
    moreover have "(fb @ fa) @ (da @ db) \<noteq> []" using A (2) by (auto simp: runA)
    ultimately show ?thesis by (simp only: e) simp
  qed
qed

text \<open>So every pending run keeps its elements without \<open>P\<close> first, and the pending runs
  together with the remaining part keep the elements of the array.\<close>

lemma merge_at_ok:
  assumes c: "\<And>a b. (cmp a b < 0) = (\<not> P a)"
    and i: "i + 1 < length rs" and ok: "\<forall>r\<in>set rs. r \<noteq> [] \<and> files_first P r"
  shows "(\<forall>r\<in>set (fst (merge_at cmp i rs minGallop)). r \<noteq> [] \<and> files_first P r)
     \<and> mset (concat (fst (merge_at cmp i rs minGallop))) = mset (concat rs)
     \<and> length (fst (merge_at cmp i rs minGallop)) = length rs - 1"
proof -
  define m where "m = fst (merge_runs cmp (rs ! i) (rs ! (i + 1)) minGallop)"
  have e: "fst (merge_at cmp i rs minGallop) = take i rs @ [m] @ drop (i + 2) rs"
    by (simp add: merge_at_def m_def case_prod_beta)
  from i have "rs = take i rs @ rs ! i # drop (Suc i) rs" by (simp add: id_take_nth_drop)
  moreover from i have "drop (Suc i) rs = rs ! (i + 1) # drop (i + 2) rs"
    by (simp add: Cons_nth_drop_Suc)
  ultimately have rs: "rs = take i rs @ [rs ! i, rs ! (i + 1)] @ drop (i + 2) rs" by simp
  from i ok have "rs ! i \<noteq> [] \<and> files_first P (rs ! i)"
    and "rs ! (i + 1) \<noteq> [] \<and> files_first P (rs ! (i + 1))" by simp_all
  with merge_runs_ok [where cmp = cmp and P = P and runA = "rs ! i" and runB = "rs ! (i + 1)"
      and minGallop = minGallop, OF c]
  have m: "files_first P m" "m \<noteq> []" "mset m = mset (rs ! i) + mset (rs ! (i + 1))"
    by (simp_all add: m_def)
  have "\<forall>r\<in>set (take i rs @ [m] @ drop (i + 2) rs). r \<noteq> [] \<and> files_first P r"
    using ok m by (auto dest: in_set_takeD in_set_dropD)
  moreover have "mset (concat (take i rs @ [m] @ drop (i + 2) rs))
                   = mset (concat (take i rs @ [rs ! i, rs ! (i + 1)] @ drop (i + 2) rs))"
    using m by simp
  moreover have "length (take i rs @ [m] @ drop (i + 2) rs) = length rs - 1" using i by simp
  ultimately show ?thesis using rs by (simp only: e)
qed

lemma merge_collapse_ok:
  "(\<And>a b. (cmp a b < 0) = (\<not> P a)) \<Longrightarrow> \<forall>r\<in>set rs. r \<noteq> [] \<and> files_first P r \<Longrightarrow>
     (\<forall>r\<in>set (fst (merge_collapse cmp rs minGallop)). r \<noteq> [] \<and> files_first P r)
     \<and> mset (concat (fst (merge_collapse cmp rs minGallop))) = mset (concat rs)"
proof (induction cmp rs minGallop rule: merge_collapse.induct)
  case (1 cmp rs minGallop)
  note c = "1.prems" (1) and ok = "1.prems" (2)
  show ?case
  proof (cases "1 < length rs")
    case False
    with ok show ?thesis by (subst (1 2) merge_collapse.simps) simp
  next
    case True
    define n where "n = length rs - 2"
    show ?thesis
    proof (cases "\<not> run_invariant_established rs (n + 1) \<or> \<not> run_invariant_established rs n")
      case inv: True
      define i where "i = (if length (rs ! (n - 1)) < length (rs ! (n + 1)) then n - 1 else n)"
      have "i + 1 < length rs" using True by (auto simp: i_def n_def)
      from merge_at_ok [where cmp = cmp and P = P and minGallop = minGallop, OF c this ok]
      have m: "\<forall>r\<in>set (fst (merge_at cmp i rs minGallop)). r \<noteq> [] \<and> files_first P r"
        "mset (concat (fst (merge_at cmp i rs minGallop))) = mset (concat rs)" by simp_all
      from "1.IH" (1) [OF True n_def inv i_def c m (1)] m (2)
      have "(\<forall>r\<in>set (fst (merge_collapse cmp (fst (merge_at cmp i rs minGallop))
                                (snd (merge_at cmp i rs minGallop)))). r \<noteq> [] \<and> files_first P r)
            \<and> mset (concat (fst (merge_collapse cmp (fst (merge_at cmp i rs minGallop))
                                (snd (merge_at cmp i rs minGallop))))) = mset (concat rs)"
        by simp
      moreover have "merge_collapse cmp rs minGallop
                       = merge_collapse cmp (fst (merge_at cmp i rs minGallop))
                           (snd (merge_at cmp i rs minGallop))"
        using True inv by (subst merge_collapse.simps) (simp add: n_def i_def Let_def)
      ultimately show ?thesis by simp
    next
      case inv: False
      show ?thesis
      proof (cases "length (rs ! n) \<le> length (rs ! (n + 1))")
        case le: True
        have "n + 1 < length rs" using True by (auto simp: n_def)
        from merge_at_ok [where cmp = cmp and P = P and minGallop = minGallop, OF c this ok]
        have m: "\<forall>r\<in>set (fst (merge_at cmp n rs minGallop)). r \<noteq> [] \<and> files_first P r"
          "mset (concat (fst (merge_at cmp n rs minGallop))) = mset (concat rs)" by simp_all
        from "1.IH" (2) [OF True n_def inv le c m (1)] m (2)
        have "(\<forall>r\<in>set (fst (merge_collapse cmp (fst (merge_at cmp n rs minGallop))
                                  (snd (merge_at cmp n rs minGallop)))). r \<noteq> [] \<and> files_first P r)
              \<and> mset (concat (fst (merge_collapse cmp (fst (merge_at cmp n rs minGallop))
                                  (snd (merge_at cmp n rs minGallop))))) = mset (concat rs)"
          by simp
        moreover have "merge_collapse cmp rs minGallop
                         = merge_collapse cmp (fst (merge_at cmp n rs minGallop))
                             (snd (merge_at cmp n rs minGallop))"
          using True inv le by (subst merge_collapse.simps) (simp add: n_def Let_def)
        ultimately show ?thesis by simp
      next
        case gt: False
        have "merge_collapse cmp rs minGallop = (rs, minGallop)"
          using True inv gt by (subst merge_collapse.simps) (simp add: n_def Let_def)
        with ok show ?thesis by simp
      qed
    qed
  qed
qed

lemma merge_force_collapse_ok:
  "(\<And>a b. (cmp a b < 0) = (\<not> P a)) \<Longrightarrow> \<forall>r\<in>set rs. r \<noteq> [] \<and> files_first P r \<Longrightarrow>
     (\<forall>r\<in>set (fst (merge_force_collapse cmp rs minGallop)). r \<noteq> [] \<and> files_first P r)
     \<and> mset (concat (fst (merge_force_collapse cmp rs minGallop))) = mset (concat rs)
     \<and> length (fst (merge_force_collapse cmp rs minGallop)) \<le> 1"
proof (induction cmp rs minGallop rule: merge_force_collapse.induct)
  case (1 cmp rs minGallop)
  note c = "1.prems" (1) and ok = "1.prems" (2)
  show ?case
  proof (cases "1 < length rs")
    case False
    then have "merge_force_collapse cmp rs minGallop = (rs, minGallop)"
      by (subst merge_force_collapse.simps) simp
    with ok False show ?thesis by simp
  next
    case True
    define n where "n = length rs - 2"
    define i where "i = (if 0 < n \<and> length (rs ! (n - 1)) < length (rs ! (n + 1)) then n - 1 else n)"
    have "i + 1 < length rs" using True by (auto simp: i_def n_def)
    from merge_at_ok [where cmp = cmp and P = P and minGallop = minGallop, OF c this ok]
    have m: "\<forall>r\<in>set (fst (merge_at cmp i rs minGallop)). r \<noteq> [] \<and> files_first P r"
      "mset (concat (fst (merge_at cmp i rs minGallop))) = mset (concat rs)" by simp_all
    from "1.IH" [OF True n_def i_def c m (1)] m (2)
    have "(\<forall>r\<in>set (fst (merge_force_collapse cmp (fst (merge_at cmp i rs minGallop))
                              (snd (merge_at cmp i rs minGallop)))). r \<noteq> [] \<and> files_first P r)
          \<and> mset (concat (fst (merge_force_collapse cmp (fst (merge_at cmp i rs minGallop))
                              (snd (merge_at cmp i rs minGallop))))) = mset (concat rs)
          \<and> length (fst (merge_force_collapse cmp (fst (merge_at cmp i rs minGallop))
                              (snd (merge_at cmp i rs minGallop)))) \<le> 1"
      by simp
    moreover have "merge_force_collapse cmp rs minGallop
                     = merge_force_collapse cmp (fst (merge_at cmp i rs minGallop))
                         (snd (merge_at cmp i rs minGallop))"
      using True by (subst merge_force_collapse.simps) (simp add: n_def i_def Let_def)
    ultimately show ?thesis by simp
  qed
qed

lemma tim_sort_loop_ok:
  "(\<And>a b. (cmp a b < 0) = (\<not> P a)) \<Longrightarrow> \<forall>r\<in>set rs. r \<noteq> [] \<and> files_first P r \<Longrightarrow>
     (\<forall>r\<in>set (tim_sort_loop cmp minRunLength rs remaining minGallop). r \<noteq> [] \<and> files_first P r)
     \<and> mset (concat (tim_sort_loop cmp minRunLength rs remaining minGallop))
         = mset (concat rs) + mset remaining
     \<and> length (tim_sort_loop cmp minRunLength rs remaining minGallop) \<le> 1"
proof (induction cmp minRunLength rs remaining minGallop rule: tim_sort_loop.induct)
  case (1 cmp minRunLength rs remaining minGallop)
  note c = "1.prems" (1) and ok = "1.prems" (2)
  show ?case
  proof (cases "remaining = []")
    case True
    then have "tim_sort_loop cmp minRunLength rs remaining minGallop
                 = fst (merge_force_collapse cmp rs minGallop)"
      by (subst tim_sort_loop.simps) simp
    with merge_force_collapse_ok [where cmp = cmp and P = P and minGallop = minGallop, OF c ok] True show ?thesis by simp
  next
    case False
    define run where "run = fst (count_and_make_run cmp remaining)"
    define rest where "rest = snd (count_and_make_run cmp remaining)"
    define forced where "forced = min minRunLength (length remaining) - length run"
    define currentRun where "currentRun =
      (if length run < minRunLength then binary_insertion_sort cmp run (take forced rest) else run)"
    define rest' where "rest' = (if length run < minRunLength then drop forced rest else rest)"
    from count_and_make_run_files_first [where cmp = cmp and P = P and xs = remaining, OF c] False
    have run: "files_first P run" "mset run + mset rest = mset remaining" "run \<noteq> []"
      by (simp_all add: run_def rest_def)
    have cur: "files_first P currentRun \<and> mset currentRun + mset rest' = mset remaining"
    proof (cases "length run < minRunLength")
      case True
      have "mset (take forced rest) + mset (drop forced rest) = mset rest"
        by (metis append_take_drop_id mset_append)
      with binary_insertion_sort_files_first [where cmp = cmp and P = P and xs = "take forced rest",
        OF c run (1)] run (2) True
      show ?thesis by (simp add: currentRun_def rest'_def) (metis add.assoc)
    next
      case False
      with run show ?thesis by (simp add: currentRun_def rest'_def)
    qed
    have "currentRun \<noteq> []"
    proof
      assume "currentRun = []"
      with run (3) have "length run < minRunLength"
        and "binary_insertion_sort cmp run (take forced rest) = []"
        by (auto simp: currentRun_def split: if_splits)
      with binary_insertion_sort_files_first [where cmp = cmp and P = P and xs = "take forced rest",
        OF c run (1)] run (3)
      show False by simp
    qed
    with cur ok have ok': "\<forall>r\<in>set (rs @ [currentRun]). r \<noteq> [] \<and> files_first P r" by simp
    from merge_collapse_ok [where cmp = cmp and P = P and minGallop = minGallop, OF c ok']
    have mc: "\<forall>r\<in>set (fst (merge_collapse cmp (rs @ [currentRun]) minGallop)). r \<noteq> [] \<and> files_first P r"
      "mset (concat (fst (merge_collapse cmp (rs @ [currentRun]) minGallop)))
         = mset (concat rs) + mset currentRun" by simp_all
    let ?next = "tim_sort_loop cmp minRunLength
                   (fst (merge_collapse cmp (rs @ [currentRun]) minGallop)) rest'
                   (snd (merge_collapse cmp (rs @ [currentRun]) minGallop))"
    from "1.IH" [OF False run_def rest_def forced_def currentRun_def rest'_def c mc (1)]
    have "(\<forall>r\<in>set ?next. r \<noteq> [] \<and> files_first P r)
          \<and> mset (concat ?next) = mset (concat rs) + mset currentRun + mset rest'
          \<and> length ?next \<le> 1"
      by (simp add: mc (2))
    moreover have "tim_sort_loop cmp minRunLength rs remaining minGallop = ?next"
      using False
      by (subst tim_sort_loop.simps)
         (simp add: Let_def run_def rest_def forced_def currentRun_def rest'_def)
    ultimately show ?thesis using cur by (simp add: add.assoc)
  qed
qed

text \<open>The sort: its result has the elements of the array, those without \<open>P\<close> first.\<close>

lemma array_sort_files_first:
  assumes c: "\<And>a b. (cmp a b < 0) = (\<not> P a)"
  shows "files_first P (array_sort cmp xs) \<and> mset (array_sort cmp xs) = mset xs"
proof (cases "length xs < 2")
  case True
  then have "xs = [] \<or> (\<exists>x. xs = [x])"
    by (cases xs) (auto simp: length_Suc_conv)
  with True show ?thesis by (auto simp: array_sort_def files_first_def)
next
  case False
  define r where "r = tim_sort_loop cmp (compute_min_run_length (length xs) 0) [] xs 7"
  from tim_sort_loop_ok [where cmp = cmp and P = P and rs = "[]"
      and minRunLength = "compute_min_run_length (length xs) 0" and remaining = xs
      and minGallop = 7, OF c]
  have r: "\<forall>y\<in>set r. y \<noteq> [] \<and> files_first P y" "mset (concat r) = mset xs" "length r \<le> 1"
    by (simp_all add: r_def)
  from r (3) have "r = [] \<or> (\<exists>y. r = [y])"
    by (cases r) (auto simp: length_Suc_conv)
  with r (1) have "files_first P (concat r)" by (auto simp: files_first_def)
  with r (2) False show ?thesis by (simp add: array_sort_def r_def)
qed

subsection \<open>\<^verbatim>\<open>delete\<close>\<close>

text \<open>Removing an entry takes exactly its path from the disk: a file and an empty
  directory have nothing beneath them.\<close>

lemma lookup_below_leaf:
  "(case k of File c m \<Rightarrow> True | Dir m ks' \<Rightarrow> ks' = []) \<Longrightarrow> ys \<noteq> [] \<Longrightarrow> lookup k ys = None"
  by (cases k; cases ys) auto

lemma remove_lookup:
  "remove want_dir n q = Inr n' \<Longrightarrow> (lookup n' p = None) = (lookup n p = None \<or> p = q)"
proof (induction want_dir n q arbitrary: n' p rule: remove.induct)
  case (1 want_dir n)
  then show ?case by simp
next
  case (2 want_dir c m x xs)
  then show ?case by simp
next
  case (3 want_dir m ks x)
  from "3.prems" obtain k where k: "map_of ks x = Some k"
    and leaf: "case k of File c m \<Rightarrow> True | Dir m ks' \<Rightarrow> ks' = []"
    and n': "n' = Dir m (AList.delete x ks)"
    by (auto split: option.splits node.splits if_splits)
  show ?case
  proof (cases p)
    case Nil
    then show ?thesis by (simp add: n')
  next
    case (Cons y ys)
    show ?thesis
    proof (cases "y = x")
      case True
      with Cons k lookup_below_leaf [OF leaf, of ys] show ?thesis
        by (cases "ys = []") (simp_all add: n' delete_conv')
    next
      case False
      with Cons show ?thesis by (simp add: n' delete_conv')
    qed
  qed
next
  case (4 want_dir m ks x y ys)
  from "4.prems" obtain k k' where k: "map_of ks x = Some k"
    and r: "remove want_dir k (y # ys) = Inr k'"
    and n': "n' = Dir m (AList.update x k' ks)"
    by (auto split: option.splits sum.splits)
  show ?case
  proof (cases p)
    case Nil
    then show ?thesis by (simp add: n')
  next
    case (Cons z zs)
    show ?thesis
    proof (cases "z = x")
      case True
      with Cons k "4.IH" [OF k r, of zs] show ?thesis by (simp add: n' update_conv')
    next
      case False
      with Cons show ?thesis by (simp add: n' update_conv')
    qed
  qed
qed

text \<open>The loop of \<^verbatim>\<open>delete\<close>: what it removed is a prefix of its list, the whole list
  when no removal failed; the paths removed are the ones that have gone from the disk;
  and the error it stops with is that of the next removal on the disk it leaves.\<close>

lemma delete_loop_prefix:
  "delete_loop fs xs = (removed, fs', err) \<Longrightarrow>
     removed = take (length removed) xs \<and> (err = None \<longrightarrow> removed = xs)"
proof (induction xs arbitrary: fs removed fs' err)
  case Nil
  then show ?case by simp
next
  case (Cons fl rest)
  show ?case
  proof (cases "if isDir fl then removeDir fs (path fl) else removeFile fs (path fl)")
    case (Inl e)
    with Cons.prems show ?thesis by (auto simp del: if_split)
  next
    case (Inr fs1)
    obtain r1 f1 e1 where dl: "delete_loop fs1 rest = (r1, f1, e1)"
      by (cases "delete_loop fs1 rest") auto
    with Inr Cons.prems have "removed = fl # r1" and "err = e1"
      by (simp_all del: if_split)
    with Cons.IH [OF dl] show ?thesis by simp
  qed
qed

lemma delete_loop_disk:
  "delete_loop fs xs = (removed, fs', err) \<Longrightarrow>
     (lookup fs' q = None) = (lookup fs q = None \<or> q \<in> path ` set removed)"
proof (induction xs arbitrary: fs removed fs' err)
  case Nil
  then show ?case by simp
next
  case (Cons fl rest)
  show ?case
  proof (cases "if isDir fl then removeDir fs (path fl) else removeFile fs (path fl)")
    case (Inl e)
    with Cons.prems show ?thesis by (auto simp del: if_split)
  next
    case (Inr fs1)
    obtain r1 f1 e1 where dl: "delete_loop fs1 rest = (r1, f1, e1)"
      by (cases "delete_loop fs1 rest") auto
    with Inr Cons.prems have rm: "removed = fl # r1" and "fs' = f1"
      by (simp_all del: if_split)
    from Inr have "remove (isDir fl) fs (path fl) = Inr fs1"
      by (simp add: removeDir_def removeFile_def split: if_splits)
    from remove_lookup [OF this, of q]
    have "(lookup fs1 q = None) = (lookup fs q = None \<or> q = path fl)" .
    with Cons.IH [OF dl] rm \<open>fs' = f1\<close> show ?thesis by auto
  qed
qed

lemma delete_loop_stop:
  "delete_loop fs xs = (removed, fs', Some e) \<Longrightarrow>
     length removed < length xs
     \<and> (if isDir (xs ! length removed) then removeDir fs' (path (xs ! length removed))
         else removeFile fs' (path (xs ! length removed))) = Inl e"
proof (induction xs arbitrary: fs removed fs')
  case Nil
  then show ?case by simp
next
  case (Cons fl rest)
  show ?case
  proof (cases "if isDir fl then removeDir fs (path fl) else removeFile fs (path fl)")
    case (Inl e')
    with Cons.prems have "removed = []" and "fs' = fs" and "e' = e"
      by (simp_all del: if_split)
    with Inl show ?thesis by (auto split: if_splits)
  next
    case (Inr fs1)
    obtain r1 f1 e1 where dl: "delete_loop fs1 rest = (r1, f1, e1)"
      by (cases "delete_loop fs1 rest") auto
    with Inr Cons.prems have "removed = fl # r1" and "fs' = f1" and "e1 = Some e"
      by (simp_all del: if_split)
    with Cons.IH [of fs1 r1 f1] dl show ?thesis by (auto split: if_splits)
  qed
qed

lemma isDir_cmp_first: "(isDir_cmp a b < 0) = (\<not> isDir a)"
  by (simp add: isDir_cmp_def)

text \<open>
  C4.  \<^verbatim>\<open>delete\<close> removes the entries of its recursive read in the order the engine's sort
  gives them, up to the first removal that fails: the sorted list holds the entries of
  the read, each as often as the read does, and the entries removed are a prefix of it.
  In that order no directory comes before a file, so every file entry is removed before
  any directory entry: once a directory entry has been removed, every file entry of the
  read has been.  On the disk left, exactly the paths of the removed entries have gone.
  When the promise is resolved, every entry has been removed; when it is rejected, the
  error is that of removing the next entry of the sorted list from the disk left.
\<close>

theorem delete_files_before_dirs:
  assumes "read createFileMatch fs (default_opts\<lparr>recursive := True\<rparr>) this_path = Inr files"
    and "delete createFileMatch fs this_path = (removed, fs', res)"
  shows "mset (array_sort isDir_cmp files) = mset files
         \<and> removed = take (length removed) (array_sort isDir_cmp files)
         \<and> (\<forall>i j. i < j \<and> j < length removed \<and> isDir (removed ! i) \<longrightarrow> isDir (removed ! j))
         \<and> ((\<exists>d\<in>set removed. isDir d) \<longrightarrow> (\<forall>f\<in>set files. \<not> isDir f \<longrightarrow> f \<in> set removed))
         \<and> (\<forall>q. (lookup fs' q = None) = (lookup fs q = None \<or> q \<in> path ` set removed))
         \<and> (case res of
               Inr sortedFiles \<Rightarrow>
                 sortedFiles = array_sort isDir_cmp files \<and> removed = sortedFiles
             | Inl e \<Rightarrow>
                 length removed < length files
                 \<and> (if isDir (array_sort isDir_cmp files ! length removed)
                    then removeDir fs' (path (array_sort isDir_cmp files ! length removed))
                    else removeFile fs' (path (array_sort isDir_cmp files ! length removed)))
                   = Inl e)"
proof -
  let ?s = "array_sort isDir_cmp files"
  obtain r1 f1 e1 where dl: "delete_loop fs ?s = (r1, f1, e1)"
    by (cases "delete_loop fs ?s") auto
  from assms dl have rm: "removed = r1" and fs': "fs' = f1"
    and res: "res = (case e1 of None \<Rightarrow> Inr ?s | Some e \<Rightarrow> Inl e)"
    by (auto simp: delete_def Let_def split: option.splits)
  from array_sort_files_first [where cmp = isDir_cmp and P = isDir and xs = files, OF isDir_cmp_first]
  have ff: "files_first isDir ?s" and ms: "mset ?s = mset files" by simp_all
  from ms have len: "length ?s = length files" by (rule mset_eq_length)
  from ms have set: "set ?s = set files" by (rule mset_eq_setD)
  from delete_loop_prefix [OF dl] rm have
    pre: "removed = take (length removed) ?s" and full: "e1 = None \<longrightarrow> removed = ?s"
    by auto
  from ff have srt: "sorted_wrt (\<lambda>a b. isDir a \<longrightarrow> isDir b) ?s"
    by (simp only: files_first_sorted_wrt)
  then have "sorted_wrt (\<lambda>a b. isDir a \<longrightarrow> isDir b) (take (length removed) ?s)"
    by (rule sorted_wrt_take)
  with pre have "sorted_wrt (\<lambda>a b. isDir a \<longrightarrow> isDir b) removed" by simp
  then have ord: "\<forall>i j. i < j \<and> j < length removed \<and> isDir (removed ! i) \<longrightarrow> isDir (removed ! j)"
    by (auto simp: sorted_wrt_iff_nth_less)
  have all: "(\<exists>d\<in>set removed. isDir d) \<longrightarrow> (\<forall>f\<in>set files. \<not> isDir f \<longrightarrow> f \<in> set removed)"
  proof (intro impI ballI)
    fix f
    assume "\<exists>d\<in>set removed. isDir d" and f: "f \<in> set files" "\<not> isDir f"
    then obtain d where d: "d \<in> set removed" "isDir d" by auto
    have s: "?s = removed @ drop (length removed) ?s"
      using pre by (metis append_take_drop_id)
    with srt have "sorted_wrt (\<lambda>a b. isDir a \<longrightarrow> isDir b) (removed @ drop (length removed) ?s)"
      by simp
    with d have "\<forall>y\<in>set (drop (length removed) ?s). isDir y"
      by (auto simp: sorted_wrt_append)
    with f have "f \<notin> set (drop (length removed) ?s)" by auto
    moreover from f set have "f \<in> set (removed @ drop (length removed) ?s)"
      using s by simp
    ultimately show "f \<in> set removed" by simp
  qed
  from delete_loop_disk [OF dl] rm fs'
  have disk: "\<forall>q. (lookup fs' q = None) = (lookup fs q = None \<or> q \<in> path ` set removed)"
    by simp
  have last: "case res of
               Inr sortedFiles \<Rightarrow> sortedFiles = ?s \<and> removed = sortedFiles
             | Inl e \<Rightarrow>
                 length removed < length files
                 \<and> (if isDir (?s ! length removed) then removeDir fs' (path (?s ! length removed))
                    else removeFile fs' (path (?s ! length removed))) = Inl e"
  proof (cases e1)
    case None
    with res full show ?thesis by simp
  next
    case (Some e)
    with delete_loop_stop [of fs ?s r1 f1 e] dl rm fs' len res show ?thesis
      by (auto split: if_splits)
  qed
  from ms pre ord all disk last show ?thesis by (intro conjI)
qed

lemmas sort_eval_simps = array_sort_def compute_min_run_length.simps tim_sort_loop.simps
  binary_search.simps merge_collapse.simps merge_force_collapse.simps isDir_cmp_def Let_def

theorem delete_files_before_dirs_witness:
  "map path (projr (read cfm_literals disk1 (default_opts\<lparr>recursive := True\<rparr>) [''root'']))
     = [[''root'', ''a.txt''], [''root'', ''sub''], [''root'', ''sub'', ''b.txt''],
        [''root'', ''sub'', ''c.txt'']]
   \<and> map path (fst (delete cfm_literals disk1 [''root'']))
     = [[''root'', ''sub'', ''c.txt''], [''root'', ''sub'', ''b.txt''], [''root'', ''a.txt''],
        [''root'', ''sub'']]
   \<and> map isDir (fst (delete cfm_literals disk1 [''root''])) = [False, False, False, True]
   \<and> fst (snd (delete cfm_literals disk1 [''root''])) = Dir 493 [(''root'', Dir 493 [])]
   \<and> snd (snd (delete cfm_literals disk1 [''root'']))
     = Inr (fst (delete cfm_literals disk1 [''root'']))
   \<and> mset (array_sort isDir_cmp
              (projr (read cfm_literals disk1 (default_opts\<lparr>recursive := True\<rparr>) [''root''])))
     = mset (projr (read cfm_literals disk1 (default_opts\<lparr>recursive := True\<rparr>) [''root'']))
   \<and> fst (delete cfm_literals disk1 [''root''])
     = take (length (fst (delete cfm_literals disk1 [''root''])))
         (array_sort isDir_cmp
            (projr (read cfm_literals disk1 (default_opts\<lparr>recursive := True\<rparr>) [''root''])))"
proof -
  let ?opts = "default_opts\<lparr>recursive := True\<rparr> :: string list read_opts"
  let ?a = "\<lparr>path = [''root'', ''a.txt''], name = ''a.txt'', dir = [''root''], isFile = True,
       isDir = False, mode = 420, relative = Some ''a.txt'', fileExists = None,
       fileOverwritten = None\<rparr>"
  let ?s = "\<lparr>path = [''root'', ''sub''], name = ''sub'', dir = [''root''], isFile = False,
       isDir = True, mode = 493, relative = Some ''sub'', fileExists = None,
       fileOverwritten = None\<rparr>"
  let ?b = "\<lparr>path = [''root'', ''sub'', ''b.txt''], name = ''b.txt'', dir = [''root'', ''sub''],
       isFile = True, isDir = False, mode = 420, relative = Some ''sub/b.txt'',
       fileExists = None, fileOverwritten = None\<rparr>"
  let ?c = "\<lparr>path = [''root'', ''sub'', ''c.txt''], name = ''c.txt'', dir = [''root'', ''sub''],
       isFile = True, isDir = False, mode = 420, relative = Some ''sub/c.txt'',
       fileExists = None, fileOverwritten = None\<rparr>"
  have h1: "read cfm_literals disk1 ?opts [''root''] = Inr [?a, ?s, ?b, ?c]"
    by (simp add: eval_simps)
  have srt: "array_sort isDir_cmp [?a, ?s, ?b, ?c] = [?c, ?b, ?a, ?s]"
    by (simp add: sort_eval_simps)
  have dl: "delete_loop disk1 [?c, ?b, ?a, ?s] = ([?c, ?b, ?a, ?s], Dir 493 [(''root'', Dir 493 [])], None)"
    by (simp add: removeDir_def removeFile_def disk1_def AList.delete_eq AList.update_def)
  have h3: "delete cfm_literals disk1 [''root'']
              = ([?c, ?b, ?a, ?s], Dir 493 [(''root'', Dir 493 [])], Inr [?c, ?b, ?a, ?s])"
    unfolding delete_def h1 sum.case Let_def srt dl by simp
  note t = delete_files_before_dirs [OF h1 h3]
  note t1 = t [THEN conjunct1] and t2 = t [THEN conjunct2, THEN conjunct1]
  have m: "mset (array_sort isDir_cmp (projr (read cfm_literals disk1 ?opts [''root''])))
     = mset (projr (read cfm_literals disk1 ?opts [''root'']))"
    by (simp only: h1 sum.sel) (rule t1)
  have e: "fst (delete cfm_literals disk1 [''root''])
     = take (length (fst (delete cfm_literals disk1 [''root''])))
         (array_sort isDir_cmp (projr (read cfm_literals disk1 ?opts [''root''])))"
    by (simp only: h1 h3 fst_conv sum.sel) (rule t2)
  have r: "map path (projr (read cfm_literals disk1 ?opts [''root'']))
     = [[''root'', ''a.txt''], [''root'', ''sub''], [''root'', ''sub'', ''b.txt''],
        [''root'', ''sub'', ''c.txt'']]"
    unfolding h1 by simp
  have d: "map path (fst (delete cfm_literals disk1 [''root'']))
     = [[''root'', ''sub'', ''c.txt''], [''root'', ''sub'', ''b.txt''], [''root'', ''a.txt''],
        [''root'', ''sub'']]"
    "map isDir (fst (delete cfm_literals disk1 [''root''])) = [False, False, False, True]"
    "fst (snd (delete cfm_literals disk1 [''root''])) = Dir 493 [(''root'', Dir 493 [])]"
    "snd (snd (delete cfm_literals disk1 [''root'']))
       = Inr (fst (delete cfm_literals disk1 [''root'']))"
    unfolding h3 by simp_all
  show ?thesis by (intro conjI) (fact r d m e)+
qed

text \<open>Among directories the sort keeps the order of the read, parent before child: with a
  directory inside a directory, \<^verbatim>\<open>delete\<close> removes the files and then rejects with
  \<^verbatim>\<open>ENOTEMPTY\<close> at the outer directory.\<close>

lemma delete_nested_rejects:
  "delete cfm_literals
     (Dir 493 [(''root'', Dir 493 [(''sub'', Dir 493 [(''inner'', Dir 493
                                      [(''f.txt'', File ''F'' 420)])])])]) [''root'']
   = ([\<lparr>path = [''root'', ''sub'', ''inner'', ''f.txt''], name = ''f.txt'',
        dir = [''root'', ''sub'', ''inner''], isFile = True, isDir = False, mode = 420,
        relative = Some ''sub/inner/f.txt'', fileExists = None, fileOverwritten = None\<rparr>],
      Dir 493 [(''root'', Dir 493 [(''sub'', Dir 493 [(''inner'', Dir 493 [])])])],
      Inl ENOTEMPTY)"
proof -
  let ?opts = "default_opts\<lparr>recursive := True\<rparr> :: string list read_opts"
  let ?disk = "Dir 493 [(''root'', Dir 493 [(''sub'', Dir 493 [(''inner'', Dir 493
                                      [(''f.txt'', File ''F'' 420)])])])]"
  let ?s = "\<lparr>path = [''root'', ''sub''], name = ''sub'', dir = [''root''], isFile = False,
       isDir = True, mode = 493, relative = Some ''sub'', fileExists = None,
       fileOverwritten = None\<rparr>"
  let ?i = "\<lparr>path = [''root'', ''sub'', ''inner''], name = ''inner'', dir = [''root'', ''sub''],
       isFile = False, isDir = True, mode = 493, relative = Some ''sub/inner'',
       fileExists = None, fileOverwritten = None\<rparr>"
  let ?f = "\<lparr>path = [''root'', ''sub'', ''inner'', ''f.txt''], name = ''f.txt'',
        dir = [''root'', ''sub'', ''inner''], isFile = True, isDir = False, mode = 420,
        relative = Some ''sub/inner/f.txt'', fileExists = None, fileOverwritten = None\<rparr>"
  have h1: "read cfm_literals ?disk ?opts [''root''] = Inr [?s, ?i, ?f]"
    by (simp add: eval_simps)
  have srt: "array_sort isDir_cmp [?s, ?i, ?f] = [?f, ?s, ?i]"
    by (simp add: sort_eval_simps)
  have dl: "delete_loop ?disk [?f, ?s, ?i]
              = ([?f], Dir 493 [(''root'', Dir 493 [(''sub'', Dir 493 [(''inner'', Dir 493 [])])])],
                 Some ENOTEMPTY)"
    by (simp add: removeDir_def removeFile_def AList.delete_eq AList.update_def)
  show ?thesis
    unfolding delete_def h1 sum.case Let_def srt dl by simp
qed

subsection \<open>\<^verbatim>\<open>copy\<close>\<close>

text \<open>Making a directory and writing a file that did not exist leave every file that was
  there with its content, and nothing that existed disappears.\<close>

lemma lookup_File [simp]: "lookup (File c m) l = Some y \<longleftrightarrow> l = [] \<and> y = File c m"
  by (cases l) auto

lemma fs_mkdir_file:
  "fs_mkdir n q md = Inr n' \<Longrightarrow> lookup n q' = Some (File c m) \<Longrightarrow> lookup n' q' = Some (File c m)"
proof (induction n q md arbitrary: n' q' rule: fs_mkdir.induct)
  case (3 m0 ks x md)
  then show ?case
    by (cases q') (auto split: option.splits simp: map_add_def)
next
  case (4 m0 ks x y ys md)
  then show ?case
    by (cases q') (auto split: option.splits sum.splits simp: update_conv')
qed simp_all

lemma fs_mkdir_exists:
  "fs_mkdir n q md = Inr n' \<Longrightarrow> lookup n q' \<noteq> None \<Longrightarrow> lookup n' q' \<noteq> None"
proof (induction n q md arbitrary: n' q' rule: fs_mkdir.induct)
  case (3 m0 ks x md)
  then show ?case
    by (cases q') (auto split: option.splits simp: map_add_def)
next
  case (4 m0 ks x y ys md)
  then show ?case
    by (cases q') (auto split: option.splits sum.splits simp: update_conv')
qed simp_all

lemma writeFile_file:
  "writeFile n q d md = Inr n' \<Longrightarrow> lookup n q = None \<Longrightarrow> lookup n q' = Some (File c m)
     \<Longrightarrow> lookup n' q' = Some (File c m)"
proof (induction n q d md arbitrary: n' q' rule: writeFile.induct)
  case (3 m0 ks x d md)
  then show ?case
    by (cases q') (auto split: option.splits node.splits simp: map_add_def)
next
  case (4 m0 ks x y ys d md)
  then show ?case
    by (cases q') (auto split: option.splits sum.splits simp: update_conv')
qed simp_all

lemma writeFile_exists:
  "writeFile n q d md = Inr n' \<Longrightarrow> lookup n q' \<noteq> None \<Longrightarrow> lookup n' q' \<noteq> None"
proof (induction n q d md arbitrary: n' q' rule: writeFile.induct)
  case (3 m0 ks x d md)
  then show ?case
    by (cases q') (auto split: option.splits node.splits simp: map_add_def update_conv')
next
  case (4 m0 ks x y ys d md)
  then show ?case
    by (cases q') (auto split: option.splits sum.splits simp: update_conv')
qed simp_all

lemma writeFile_written:
  "writeFile n q d md = Inr n' \<Longrightarrow> lookup n' q \<noteq> None"
proof (induction n q d md arbitrary: n' rule: writeFile.induct)
  case (3 m0 ks x d md)
  then show ?case
    by (auto split: option.splits node.splits simp: map_add_def update_conv')
next
  case (4 m0 ks x y ys d md)
  then show ?case
    by (auto split: option.splits sum.splits simp: update_conv')
qed simp_all

text \<open>One disk keeps what another holds: every file with its content, and every path
  that exists.\<close>

definition keeps :: "node \<Rightarrow> node \<Rightarrow> bool" where
  "keeps fs fs' =
     ((\<forall>q content. readFile fs q = Inr content \<longrightarrow> readFile fs' q = Inr content) \<and>
      (\<forall>q. fs_access fs q = None \<longrightarrow> fs_access fs' q = None))"

lemma keeps_refl: "keeps fs fs"
  by (simp add: keeps_def)

lemma keeps_trans: "keeps a b \<Longrightarrow> keeps b c \<Longrightarrow> keeps a c"
  by (simp add: keeps_def)

lemma readFile_Inr: "readFile fs q = Inr content \<longleftrightarrow> (\<exists>m. lookup fs q = Some (File content m))"
  by (auto simp: readFile_def split: option.splits node.splits)

lemma fs_access_None: "fs_access fs q = None \<longleftrightarrow> lookup fs q \<noteq> None"
  by (auto simp: fs_access_def split: option.splits)

lemma fs_mkdir_keeps: "fs_mkdir fs q md = Inr fs' \<Longrightarrow> keeps fs fs'"
  unfolding keeps_def readFile_Inr fs_access_None
  using fs_mkdir_file fs_mkdir_exists by blast

lemma writeFile_keeps:
  "writeFile fs q d md = Inr fs' \<Longrightarrow> fs_access fs q \<noteq> None \<Longrightarrow> keeps fs fs'"
  unfolding keeps_def readFile_Inr fs_access_None
  using writeFile_file writeFile_exists by blast

lemma mkdir_loop_keeps: "mkdir_loop fs ds md = (fs', e) \<Longrightarrow> keeps fs fs'"
proof (induction ds arbitrary: fs)
  case Nil
  then show ?case by (simp add: keeps_refl)
next
  case (Cons d ds)
  show ?case
  proof (cases "fs_access fs d = None")
    case True
    with Cons show ?thesis by simp
  next
    case False
    show ?thesis
    proof (cases "fs_mkdir fs d md")
      case (Inl err)
      with False Cons.prems show ?thesis by (auto simp: keeps_refl)
    next
      case (Inr fs1)
      with False Cons.prems have "mkdir_loop fs1 ds md = (fs', e)" by auto
      from Cons.IH [OF this] fs_mkdir_keeps [OF Inr] show ?thesis
        by (rule keeps_trans [rotated])
    qed
  qed
qed

lemma mkdir_keeps: "mkdir fs target md = (fs', e) \<Longrightarrow> keeps fs fs'"
  unfolding mkdir_def by (rule mkdir_loop_keeps)

lemma keeps_not_exists: "keeps a b \<Longrightarrow> fs_access b q \<noteq> None \<Longrightarrow> fs_access a q \<noteq> None"
  by (auto simp: keeps_def)

lemma keeps_exists: "keeps a b \<Longrightarrow> fs_access a q = None \<Longrightarrow> fs_access b q = None"
  by (auto simp: keeps_def)

text \<open>Without \<^verbatim>\<open>overwrite\<close>, the loop keeps the disk it starts on, and every path it writes
  did not exist when it started and exists when it ends.\<close>

lemma copy_loop_inv:
  assumes "\<not> overwrite opts" and "copy_loop opts dest fs w files = (fs', w', r)"
  shows "keeps fs fs' \<and>
         (\<exists>new. w' = w @ new \<and> (\<forall>q\<in>set new. fs_access fs q \<noteq> None \<and> fs_access fs' q = None))"
  using assms(2)
proof (induction files arbitrary: fs w fs' w' r)
  case Nil
  then show ?case by (simp add: keeps_refl)
next
  case (Cons fl rest)
  note IH = Cons.IH and run = Cons.prems
  show ?case
  proof (cases "relative fl")
    case None
    with run show ?thesis by (simp add: keeps_refl)
  next
    case (Some rel)
    let ?destFile = "path_join dest rel"
    show ?thesis
    proof (cases "isDir fl")
      case True
      obtain fs1 eo where mk: "mkdir fs ?destFile (mode_or (dirMode opts) (mode fl)) = (fs1, eo)"
        by (cases "mkdir fs ?destFile (mode_or (dirMode opts) (mode fl))") auto
      note k1 = mkdir_keeps [OF mk]
      show ?thesis
      proof (cases eo)
        case (Some e)
        with run \<open>relative fl = Some rel\<close> True mk have "fs' = fs1" "w' = w"
          by (simp_all add: Let_def)
        with k1 show ?thesis by simp
      next
        case None
        obtain fs2 w2 r2 where cl: "copy_loop opts dest fs1 w rest = (fs2, w2, r2)"
          by (cases "copy_loop opts dest fs1 w rest") auto
        with run \<open>relative fl = Some rel\<close> True mk None have eq: "fs' = fs2" "w' = w2"
          by (auto simp: Let_def split: sum.splits)
        from IH [OF cl] obtain new where k2: "keeps fs1 fs2" and w2: "w2 = w @ new"
          and nw: "\<forall>q\<in>set new. fs_access fs1 q \<noteq> None \<and> fs_access fs2 q = None"
          by blast
        have "\<forall>q\<in>set new. fs_access fs q \<noteq> None \<and> fs_access fs2 q = None"
          using nw keeps_not_exists [OF k1] by blast
        with keeps_trans [OF k1 k2] w2 eq show ?thesis by blast
      qed
    next
      case False
      show ?thesis
      proof (cases "readFile fs (path fl)")
        case (Inl e)
        with run \<open>relative fl = Some rel\<close> False show ?thesis
          by (simp add: Let_def keeps_refl)
      next
        case (Inr data)
        show ?thesis
        proof (cases "fs_access fs ?destFile = None")
          case True
          obtain fs2 w2 r2 where cl: "copy_loop opts dest fs w rest = (fs2, w2, r2)"
            by (cases "copy_loop opts dest fs w rest") auto
          with run \<open>relative fl = Some rel\<close> \<open>\<not> isDir fl\<close> Inr True assms(1)
          have eq: "fs' = fs2" "w' = w2"
            by (auto simp: Let_def split: sum.splits)
          from IH [OF cl] eq show ?thesis by simp
        next
          case nex: False
          show ?thesis
          proof (cases "writeFile fs ?destFile data (mode_or (fileMode opts) (mode fl))")
            case (Inl e)
            with run \<open>relative fl = Some rel\<close> \<open>\<not> isDir fl\<close> Inr nex show ?thesis
              by (auto simp: Let_def keeps_refl)
          next
            case wr: (Inr fs1)
            note k1 = writeFile_keeps [OF wr nex]
            have ex1: "fs_access fs1 ?destFile = None"
              using writeFile_written [OF wr] by (simp add: fs_access_None)
            obtain fs2 w2 r2 where
              cl: "copy_loop opts dest fs1 (w @ [?destFile]) rest = (fs2, w2, r2)"
              by (cases "copy_loop opts dest fs1 (w @ [?destFile]) rest") auto
            with run \<open>relative fl = Some rel\<close> \<open>\<not> isDir fl\<close> Inr nex wr
            have eq: "fs' = fs2" "w' = w2"
              by (auto simp: Let_def split: sum.splits)
            from IH [OF cl] obtain new where k2: "keeps fs1 fs2"
              and w2: "w2 = (w @ [?destFile]) @ new"
              and nw: "\<forall>q\<in>set new. fs_access fs1 q \<noteq> None \<and> fs_access fs2 q = None"
              by blast
            have "\<forall>q\<in>set (?destFile # new). fs_access fs q \<noteq> None \<and> fs_access fs2 q = None"
              using nw nex keeps_not_exists [OF k1] keeps_exists [OF k2 ex1] by auto
            moreover have "w2 = w @ (?destFile # new)" using w2 by simp
            ultimately show ?thesis using keeps_trans [OF k1 k2] eq by blast
          qed
        qed
      qed
    qed
  qed
qed

lemma copy_inv:
  assumes "\<not> overwrite (copy_defaults arg)" and "copy c fs src dest arg = (fs', w', r)"
  shows "keeps fs fs' \<and> (\<forall>q\<in>set w'. fs_access fs q \<noteq> None \<and> fs_access fs' q = None)"
proof -
  obtain fs0 eo where mk: "(if fs_access fs dest \<noteq> None then mkdir fs dest 511 else (fs, None)) = (fs0, eo)"
    by (cases "if fs_access fs dest \<noteq> None then mkdir fs dest 511 else (fs, None)") auto
  have k0: "keeps fs fs0"
    using mk mkdir_keeps [of fs dest 511 fs0 eo] by (auto simp: keeps_refl split: if_splits)
  show ?thesis
  proof (cases eo)
    case (Some e)
    with assms(2) mk have "fs' = fs0" "w' = []"
      by (simp_all add: copy_def Let_def del: if_split)
    with k0 show ?thesis by simp
  next
    case None
    show ?thesis
    proof (cases "read c fs0 (default_opts\<lparr>recursive := True\<rparr>) src")
      case (Inl e)
      with assms(2) mk None have "fs' = fs0" "w' = []"
        by (simp_all add: copy_def Let_def del: if_split)
      with k0 show ?thesis by simp
    next
      case (Inr files)
      with assms(2) mk None have "copy_loop (copy_defaults arg) dest fs0 [] files = (fs', w', r)"
        by (simp add: copy_def Let_def del: if_split)
      from copy_loop_inv [OF assms(1) this] have k1: "keeps fs0 fs'"
        and nw: "\<forall>q\<in>set w'. fs_access fs0 q \<noteq> None \<and> fs_access fs' q = None"
        by auto
      from nw keeps_not_exists [OF k0] keeps_trans [OF k0 k1] show ?thesis by blast
    qed
  qed
qed

text \<open>
  C5.  Two runs of \<^verbatim>\<open>copy\<close> in succession on the same destination, with \<^verbatim>\<open>overwrite\<close> false
  (so for \<^verbatim>\<open>{overwrite: false}\<close>, for \<^verbatim>\<open>true\<close> and for no options), whether or not a run
  fails part-way: the second run writes none of the files the first run wrote, and every
  file on the disk after the first run has the same content after the second.
\<close>

theorem copy_twice_no_overwrite:
  assumes "\<not> overwrite (copy_defaults arg)"
    and "copy c fs src dest arg = (fs1, written1, r1)"
    and "copy c fs1 src dest arg = (fs2, written2, r2)"
  shows "set written2 \<inter> set written1 = {}
         \<and> (\<forall>q content. readFile fs1 q = Inr content \<longrightarrow> readFile fs2 q = Inr content)"
proof -
  from copy_inv [OF assms(1,2)] have a: "\<forall>q\<in>set written1. fs_access fs1 q = None"
    by blast
  from copy_inv [OF assms(1,3)] have k: "keeps fs1 fs2"
    and b: "\<forall>q\<in>set written2. fs_access fs1 q \<noteq> None"
    by blast+
  from a b have "set written2 \<inter> set written1 = {}" by blast
  with k show ?thesis by (simp add: keeps_def)
qed

lemmas copy_eval_simps = copy_def copy_defaults_def mkdir_def createPathArray_def fs_access_def
  path_join_def split_slash_def mode_or_def readFile_def

theorem copy_twice_no_overwrite_witness:
  "fst (snd (copy cfm_literals disk1 [''root''] [''dst'']
        (Opts \<lparr>recursive_copy = False, overwrite = False, dirMode = None, fileMode = None\<rparr>)))
     = [[''dst'', ''a.txt''], [''dst'', ''sub'', ''b.txt''], [''dst'', ''sub'', ''c.txt'']]
   \<and> fst (snd (copy cfm_literals
        (fst (copy cfm_literals disk1 [''root''] [''dst'']
           (Opts \<lparr>recursive_copy = False, overwrite = False, dirMode = None, fileMode = None\<rparr>)))
        [''root''] [''dst'']
        (Opts \<lparr>recursive_copy = False, overwrite = False, dirMode = None, fileMode = None\<rparr>)))
     = []
   \<and> set (fst (snd (copy cfm_literals
        (fst (copy cfm_literals disk1 [''root''] [''dst'']
           (Opts \<lparr>recursive_copy = False, overwrite = False, dirMode = None, fileMode = None\<rparr>)))
        [''root''] [''dst'']
        (Opts \<lparr>recursive_copy = False, overwrite = False, dirMode = None, fileMode = None\<rparr>))))
      \<inter> set (fst (snd (copy cfm_literals disk1 [''root''] [''dst'']
        (Opts \<lparr>recursive_copy = False, overwrite = False, dirMode = None, fileMode = None\<rparr>))))
     = {}"
proof -
  let ?arg = "Opts \<lparr>recursive_copy = False, overwrite = False, dirMode = None, fileMode = None\<rparr>"
  let ?run1 = "copy cfm_literals disk1 [''root''] [''dst''] ?arg"
  let ?run2 = "copy cfm_literals (fst ?run1) [''root''] [''dst''] ?arg"
  let ?fs1 = "Dir 493
     [(''root'', Dir 493 [(''a.txt'', File ''A'' 420),
                          (''sub'', Dir 493 [(''b.txt'', File ''B'' 420),
                                             (''c.txt'', File ''C'' 420)])]),
      (''dst'', Dir 511 [(''a.txt'', File ''A'' 420),
                         (''sub'', Dir 493 [(''b.txt'', File ''B'' 420),
                                            (''c.txt'', File ''C'' 420)])])]"
  have h0: "\<not> overwrite (copy_defaults ?arg)"
    by (simp add: copy_defaults_def)
  have f1: "fst ?run1 = ?fs1"
    by (simp add: copy_eval_simps eval_simps AList.update_def)
  have w1: "fst (snd ?run1)
     = [[''dst'', ''a.txt''], [''dst'', ''sub'', ''b.txt''], [''dst'', ''sub'', ''c.txt'']]"
    by (simp add: copy_eval_simps eval_simps AList.update_def)
  have w2: "fst (snd (copy cfm_literals ?fs1 [''root''] [''dst''] ?arg)) = []"
    by (simp add: copy_eval_simps eval_simps AList.update_def)
  have h1: "?run1 = (fst ?run1, fst (snd ?run1), snd (snd ?run1))" by simp
  have h2: "?run2 = (fst ?run2, fst (snd ?run2), snd (snd ?run2))" by simp
  note t = copy_twice_no_overwrite [OF h0 h1 h2, THEN conjunct1]
  from w2 have w2': "fst (snd ?run2) = []" by (simp only: f1)
  show ?thesis by (intro conjI) (fact w1 w2' t)+
qed

end
